theory Spec2Isabelle
  imports Complex_Main "HOL-Library.Word" "HOL-Library.Log_Nat"
begin

section \<open>JavaScript values read by \<open>index.js\<close>\<close>

text \<open>
  A JavaScript number is an IEEE double. A finite double is a rational, so finite numbers
  are \<open>Fin q\<close>; the tests the source applies to option values (\<open>isNaN\<close>, the comparisons
  of \<open>isSafe\<close>, \<open><\<close>, \<open>Math.floor\<close>) are exact on doubles and are modelled on the
  rational. Negative zero is \<open>Fin 0\<close>: none of these tests tells the two zeros apart.
  Where the source produces a number from a string or a product, the result is rounded
  to the nearest double (\<open>roundToDouble\<close>).
\<close>

datatype jsnum = NaN | PosInf | NegInf | Fin rat

text \<open>The primitive values an option key can hold, apart from \<open>undefined\<close> and \<open>null\<close>.\<close>

datatype jsval = JBool bool | JNum jsnum | JStr string

text \<open>A property of an object: missing, \<open>undefined\<close>, \<open>null\<close>, or holding a value.\<close>

datatype 'a property = Absent | Undefined | Null | Value 'a

subsection \<open>Rounding to the nearest double\<close>

definition two_powi :: "int \<Rightarrow> rat" where
  "two_powi e = (if 0 \<le> e then 2 ^ nat e else 1 / 2 ^ nat (- e))"

text \<open>For \<open>q > 0\<close>, the exponent \<open>e\<close> with \<open>2^e \<le> q < 2^(e+1)\<close>.\<close>

definition floor_log2 :: "rat \<Rightarrow> int" where
  "floor_log2 q =
     (let (p, d) = quotient_of q; e0 = bitlen p - bitlen d
      in if two_powi e0 \<le> q then e0 else e0 - 1)"

definition round_half_even :: "rat \<Rightarrow> int" where
  "round_half_even q =
     (let f = \<lfloor>q\<rfloor>; r = q - of_int f
      in if r < 1 / 2 then f else if 1 / 2 < r then f + 1
         else if even f then f else f + 1)"

text \<open>
  Binary64, round to nearest, ties to even: 53 significant bits, least normal exponent
  \<open>-1022\<close> (below it the spacing stays \<open>2^-1074\<close>), overflow to infinity from \<open>2^1024\<close>.
\<close>

definition roundToDouble :: "rat \<Rightarrow> jsnum" where
  "roundToDouble q =
     (if q = 0 then Fin 0
      else let a = \<bar>q\<bar>;
               e = max (floor_log2 a) (- 1022);
               ulp = two_powi (e - 52);
               r = of_int (round_half_even (a / ulp)) * ulp
           in if 2 ^ 1024 \<le> r then (if 0 < q then PosInf else NegInf)
              else Fin (if 0 < q then r else - r))"

subsection \<open>\<open>ToNumber\<close> on strings (ECMAScript \<open>StringToNumber\<close>)\<close>

text \<open>
  Strings are lists of 8-bit characters, read as Latin-1 code points. White space and
  line terminators in that range: TAB, LF, VT, FF, CR, SP, NBSP.
\<close>

definition isWhiteSpace :: "char \<Rightarrow> bool" where
  "isWhiteSpace c \<longleftrightarrow>
     c \<in> set [CHR 0x09, CHR 0x0A, CHR 0x0B, CHR 0x0C, CHR 0x0D, CHR 0x20, CHR 0xA0]"

definition trim :: "string \<Rightarrow> string" where
  "trim s = rev (dropWhile isWhiteSpace (rev (dropWhile isWhiteSpace s)))"

definition isDigit :: "char \<Rightarrow> bool" where
  "isDigit c \<longleftrightarrow> c \<in> set ''0123456789''"

definition isHexDigit :: "char \<Rightarrow> bool" where
  "isHexDigit c \<longleftrightarrow> c \<in> set ''0123456789abcdefABCDEF''"

definition isOctalDigit :: "char \<Rightarrow> bool" where
  "isOctalDigit c \<longleftrightarrow> c \<in> set ''01234567''"

definition isBinaryDigit :: "char \<Rightarrow> bool" where
  "isBinaryDigit c \<longleftrightarrow> c \<in> set ''01''"

text \<open>The value of a digit of a decimal, hexadecimal, octal or binary literal.\<close>

definition digitValue :: "char \<Rightarrow> nat" where
  "digitValue c =
     (case map_of (zip ''0123456789abcdefABCDEF''
                      [0, 1, 2, 3, 4, 5, 6, 7, 8, 9, 10, 11, 12, 13, 14, 15,
                       10, 11, 12, 13, 14, 15]) c of
        Some v \<Rightarrow> v
      | None \<Rightarrow> 0)"

definition digitsValue :: "nat \<Rightarrow> string \<Rightarrow> nat" where
  "digitsValue radix ds = foldl (\<lambda>acc c. acc * radix + digitValue c) 0 ds"

definition ten_powi :: "int \<Rightarrow> rat" where
  "ten_powi e = (if 0 \<le> e then 10 ^ nat e else 1 / 10 ^ nat (- e))"

text \<open>
  \<open>ExponentPart\<close>, optional: nothing (exponent 0), or \<open>e\<close>/\<open>E\<close>, an optional sign and at
  least one digit. \<open>None\<close> when the text is neither.
\<close>

definition exponentPart :: "string \<Rightarrow> int option" where
  "exponentPart r =
     (if r = [] then Some 0
      else if hd r = CHR ''e'' \<or> hd r = CHR ''E'' then
        (let t = tl r;
             neg = (t \<noteq> [] \<and> hd t = CHR ''-'');
             ds = (if t \<noteq> [] \<and> (hd t = CHR ''+'' \<or> hd t = CHR ''-'') then tl t else t)
         in if ds \<noteq> [] \<and> list_all isDigit ds
            then Some (if neg then - int (digitsValue 10 ds) else int (digitsValue 10 ds))
            else None)
      else None)"

text \<open>
  The mathematical value of \<open>DecimalDigits . DecimalDigits\<^sub>o\<^sub>p\<^sub>t ExponentPart\<^sub>o\<^sub>p\<^sub>t\<close>,
  \<open>. DecimalDigits ExponentPart\<^sub>o\<^sub>p\<^sub>t\<close> or \<open>DecimalDigits ExponentPart\<^sub>o\<^sub>p\<^sub>t\<close>; \<open>None\<close> when the
  text is none of them.
\<close>

definition decimalValue :: "string \<Rightarrow> rat option" where
  "decimalValue s =
     (let ip = takeWhile isDigit s;
          r1 = dropWhile isDigit s;
          dot = (r1 \<noteq> [] \<and> hd r1 = CHR ''.'');
          fp = (if dot then takeWhile isDigit (tl r1) else []);
          r2 = (if dot then dropWhile isDigit (tl r1) else r1)
      in if ip = [] \<and> fp = [] then None
         else case exponentPart r2 of
                None \<Rightarrow> None
              | Some ex \<Rightarrow>
                  Some (of_nat (digitsValue 10 (ip @ fp)) * ten_powi (ex - int (length fp))))"

text \<open>\<open>StrDecimalLiteral\<close>: an optional sign, then \<open>Infinity\<close> or an unsigned decimal.\<close>

definition StrDecimalLiteral :: "string \<Rightarrow> jsnum" where
  "StrDecimalLiteral s =
     (let neg = (s \<noteq> [] \<and> hd s = CHR ''-'');
          body = (if s \<noteq> [] \<and> (hd s = CHR ''+'' \<or> hd s = CHR ''-'') then tl s else s)
      in if body = ''Infinity'' then (if neg then NegInf else PosInf)
         else case decimalValue body of
                None \<Rightarrow> NaN
              | Some q \<Rightarrow> roundToDouble (if neg then - q else q))"

text \<open>\<open>NonDecimalIntegerLiteral\<close>: \<open>0x\<close>, \<open>0o\<close>, \<open>0b\<close> (either case) and at least one digit.\<close>

definition nonDecimalValue :: "string \<Rightarrow> nat option" where
  "nonDecimalValue s =
     (if length s < 3 \<or> hd s \<noteq> CHR ''0'' then None
      else let k = s ! 1; ds = drop 2 s
           in if (k = CHR ''x'' \<or> k = CHR ''X'') \<and> list_all isHexDigit ds
                then Some (digitsValue 16 ds)
              else if (k = CHR ''o'' \<or> k = CHR ''O'') \<and> list_all isOctalDigit ds
                then Some (digitsValue 8 ds)
              else if (k = CHR ''b'' \<or> k = CHR ''B'') \<and> list_all isBinaryDigit ds
                then Some (digitsValue 2 ds)
              else None)"

definition StringToNumber :: "string \<Rightarrow> jsnum" where
  "StringToNumber s =
     (let t = trim s
      in if t = [] then Fin 0
         else case nonDecimalValue t of
                Some n \<Rightarrow> roundToDouble (of_nat n)
              | None \<Rightarrow> StrDecimalLiteral t)"

subsection \<open>Coercions and the number operations the source uses\<close>

definition ToNumber :: "jsval \<Rightarrow> jsnum" where
  "ToNumber v =
     (case v of
        JBool b \<Rightarrow> Fin (if b then 1 else 0)
      | JNum n \<Rightarrow> n
      | JStr s \<Rightarrow> StringToNumber s)"

text \<open>\<open>a < b\<close> on numbers: false when either side is \<open>NaN\<close>.\<close>

definition js_less :: "jsnum \<Rightarrow> jsnum \<Rightarrow> bool" where
  "js_less a b =
     (case (a, b) of
        (NaN, _) \<Rightarrow> False
      | (_, NaN) \<Rightarrow> False
      | (PosInf, _) \<Rightarrow> False
      | (_, NegInf) \<Rightarrow> False
      | (NegInf, _) \<Rightarrow> True
      | (_, PosInf) \<Rightarrow> True
      | (Fin x, Fin y) \<Rightarrow> x < y)"

text \<open>\<open>a <= b\<close> on numbers: \<open>a < b\<close> or equal, false when either side is \<open>NaN\<close>.\<close>

definition js_le :: "jsnum \<Rightarrow> jsnum \<Rightarrow> bool" where
  "js_le a b \<longleftrightarrow> a \<noteq> NaN \<and> b \<noteq> NaN \<and> (a = b \<or> js_less a b)"

definition Math_floor :: "jsnum \<Rightarrow> jsnum" where
  "Math_floor n = (case n of Fin q \<Rightarrow> Fin (of_int \<lfloor>q\<rfloor>) | _ \<Rightarrow> n)"

text \<open>\<open>a * b\<close> on numbers.\<close>

definition js_times :: "jsnum \<Rightarrow> jsnum \<Rightarrow> jsnum" where
  "js_times a b =
     (case (a, b) of
        (NaN, _) \<Rightarrow> NaN
      | (_, NaN) \<Rightarrow> NaN
      | (Fin x, Fin y) \<Rightarrow> roundToDouble (x * y)
      | (Fin x, PosInf) \<Rightarrow> (if x = 0 then NaN else if 0 < x then PosInf else NegInf)
      | (Fin x, NegInf) \<Rightarrow> (if x = 0 then NaN else if 0 < x then NegInf else PosInf)
      | (PosInf, Fin y) \<Rightarrow> (if y = 0 then NaN else if 0 < y then PosInf else NegInf)
      | (NegInf, Fin y) \<Rightarrow> (if y = 0 then NaN else if 0 < y then NegInf else PosInf)
      | (PosInf, PosInf) \<Rightarrow> PosInf
      | (NegInf, NegInf) \<Rightarrow> PosInf
      | (PosInf, NegInf) \<Rightarrow> NegInf
      | (NegInf, PosInf) \<Rightarrow> NegInf)"

definition MAX_SAFE_INTEGER :: rat where
  "MAX_SAFE_INTEGER = 2 ^ 53 - 1"

definition MIN_SAFE_INTEGER :: rat where
  "MIN_SAFE_INTEGER = - (2 ^ 53 - 1)"

definition isSafe :: "jsnum \<Rightarrow> bool" where
  "isSafe number \<longleftrightarrow>
     js_le (Fin MIN_SAFE_INTEGER) number \<and> js_le number (Fin MAX_SAFE_INTEGER)"

definition isNaN :: "jsval \<Rightarrow> bool" where
  "isNaN v \<longleftrightarrow> ToNumber v = NaN"

text \<open>
  \<open>isDefined(property, object)\<close>: the property is in the object and is neither
  \<open>undefined\<close> nor \<open>null\<close>.
\<close>

definition isDefined :: "'a property \<Rightarrow> bool" where
  "isDefined p = (case p of Value _ \<Rightarrow> True | _ \<Rightarrow> False)"

section \<open>The splitter\<close>

type_synonym byte = "8 word"

type_synonym buffer = "byte list"

definition LF :: byte where
  "LF = 10"

text \<open>
  \<open>buffer.slice(begin, end)\<close> for \<open>0 \<le> begin\<close>: the bytes from \<open>begin\<close> up to, not
  including, \<open>end\<close>; both ends are clamped to the length. \<open>buffer.slice(begin)\<close> is
  \<open>drop begin buffer\<close>.
\<close>

definition buffer_slice :: "nat \<Rightarrow> nat \<Rightarrow> buffer \<Rightarrow> buffer" where
  "buffer_slice begin end buffer = take (end - begin) (drop begin buffer)"

text \<open>
  The loop of \<open>splitByLines\<close>, one call per iteration. \<open>buffer[index]\<close> at
  \<open>index = buffer.length\<close> is \<open>undefined\<close>, which is not \<open>LF\<close>.
\<close>

function splitByLines_loop ::
  "buffer \<Rightarrow> nat \<Rightarrow> nat \<Rightarrow> nat \<Rightarrow> nat \<Rightarrow> buffer list \<Rightarrow> buffer list" where
  "splitByLines_loop buffer lines begin index lineCount splitted =
     (if begin = length buffer then splitted
      else if length buffer < index then splitted @ [drop begin buffer]
      else if index < length buffer \<and> buffer ! index = LF then
        (if lineCount = lines
         then splitByLines_loop buffer lines (index + 1) (index + 1) 1
                (splitted @ [buffer_slice begin (index + 1) buffer])
         else splitByLines_loop buffer lines begin (index + 1) (lineCount + 1) splitted)
      else splitByLines_loop buffer lines begin (index + 1) lineCount splitted)"
  by pat_completeness auto
termination
  by (relation "measure (\<lambda>(buffer, lines, begin, index, lineCount, splitted).
        Suc (length buffer) - index)") auto

declare splitByLines_loop.simps [simp del]

definition splitByLines :: "buffer \<Rightarrow> nat \<Rightarrow> buffer list" where
  "splitByLines buffer lines = splitByLines_loop buffer lines 0 0 1 []"

text \<open>
  The loop of \<open>splitByBytes\<close>. With \<open>size = 0\<close> and a non-empty buffer it never ends:
  the result is \<open>None\<close> then.
\<close>

partial_function (option) splitByBytes_loop ::
  "buffer \<Rightarrow> nat \<Rightarrow> nat \<Rightarrow> nat \<Rightarrow> buffer list \<Rightarrow> buffer list option" where
  "splitByBytes_loop buffer sz begin end splitted =
     (if begin = length buffer then Some splitted
      else if length buffer < end then Some (splitted @ [drop begin buffer])
      else splitByBytes_loop buffer sz end (end + sz)
             (splitted @ [buffer_slice begin end buffer]))"

declare splitByBytes_loop.simps [code]

definition splitByBytes :: "buffer \<Rightarrow> nat \<Rightarrow> buffer list option" where
  "splitByBytes buffer sz = splitByBytes_loop buffer sz 0 sz []"

text \<open>The chunks of a list, of a given positive length, the last one with what is left.\<close>

function chunks :: "nat \<Rightarrow> 'a list \<Rightarrow> 'a list list" where
  "chunks k xs = (if k = 0 \<or> xs = [] then [] else take k xs # chunks k (drop k xs))"
  by pat_completeness auto
termination
  by (relation "measure (\<lambda>(k, xs). length xs)") auto

declare chunks.simps [simp del]

section \<open>Objects and the store\<close>

text \<open>
  The options object the caller passes. Its keys are read at the types the JSDoc of
  \<open>split\<close> documents: \<open>lines\<close>, \<open>bytes\<close>, \<open>line_bytes\<close>, \<open>suffix_length\<close> and
  \<open>numeric_suffixes\<close> hold any primitive (the source coerces them to numbers),
  \<open>prefix\<close> and \<open>additional_suffix\<close> hold strings.
\<close>

record raw_options =
  raw_lines :: "jsval property"
  raw_bytes :: "jsval property"
  raw_line_bytes :: "jsval property"
  raw_prefix :: "string property"
  raw_suffix_length :: "jsval property"
  raw_additional_suffix :: "string property"
  raw_numeric_suffixes :: "jsval property"

text \<open>
  The object \<open>checkOptions\<close> builds, starting from \<open>{}\<close>: a key is \<open>None\<close> until it is
  assigned. Every number it assigns is a non-negative integer (the floor of a value that
  passed \<open>isSafe\<close> and a lower bound, or a product of a digit string and a unit that
  passed \<open>isSafe\<close>), hence \<open>nat\<close>.
\<close>

record config =
  lines :: "nat option"
  bytes :: "nat option"
  line_bytes :: "nat option"
  prefix :: "string option"
  suffix_length :: "nat option"
  numeric_suffixes :: "nat option"
  additional_suffix :: "string option"

definition empty_config :: config where
  "empty_config = \<lparr>lines = None, bytes = None, line_bytes = None, prefix = None,
     suffix_length = None, numeric_suffixes = None, additional_suffix = None\<rparr>"

text \<open>
  Objects live in a store and are passed by reference; an address is an index into the
  store, and a new object takes the next index.
\<close>

datatype cell = Raw raw_options | Cfg config

type_synonym heap = "cell list"

definition alloc :: "heap \<Rightarrow> cell \<Rightarrow> heap \<times> nat" where
  "alloc h c = (h @ [c], length h)"

text \<open>An object written by \<open>checkOptions\<close>, read back as a loosely typed options object.\<close>

definition num_property :: "nat option \<Rightarrow> jsval property" where
  "num_property x = (case x of None \<Rightarrow> Absent | Some n \<Rightarrow> Value (JNum (Fin (of_nat n))))"

definition str_property :: "string option \<Rightarrow> string property" where
  "str_property x = (case x of None \<Rightarrow> Absent | Some s \<Rightarrow> Value s)"

definition read_raw :: "heap \<Rightarrow> nat \<Rightarrow> raw_options" where
  "read_raw h a =
     (case h ! a of
        Raw r \<Rightarrow> r
      | Cfg c \<Rightarrow>
          \<lparr>raw_lines = num_property (lines c), raw_bytes = num_property (bytes c),
           raw_line_bytes = num_property (line_bytes c), raw_prefix = str_property (prefix c),
           raw_suffix_length = num_property (suffix_length c),
           raw_additional_suffix = str_property (additional_suffix c),
           raw_numeric_suffixes = num_property (numeric_suffixes c)\<rparr>)"

text \<open>
  The typed object at an address. Only addresses returned by \<open>checkOptions\<close> are read
  this way, and they hold a \<open>Cfg\<close> cell.
\<close>

definition read_cfg :: "heap \<Rightarrow> nat \<Rightarrow> config" where
  "read_cfg h a = (case h ! a of Cfg c \<Rightarrow> c | Raw r \<Rightarrow> empty_config)"

text \<open>An assignment \<open>options.key = v\<close>: the object at the address is updated in place.\<close>

definition assign :: "nat \<Rightarrow> (config \<Rightarrow> config) \<Rightarrow> heap \<Rightarrow> heap" where
  "assign a f h = h[a := Cfg (f (read_cfg h a))]"

text \<open>What \<open>split\<close> can be handed as its \<open>options\<close> argument.\<close>

datatype jsarg = NotAnObject | NullArg | ObjRef nat

section \<open>The option validator\<close>

datatype error = TypeError string | RangeError string | Error string | WriteError string

text \<open>The value of a property that \<open>isDefined\<close> has accepted.\<close>

definition the_value :: "'a property \<Rightarrow> 'a" where
  "the_value p = (case p of Value v \<Rightarrow> v)"

text \<open>The natural number a validated number is.\<close>

definition the_nat :: "jsnum \<Rightarrow> nat" where
  "the_nat n = (case n of Fin q \<Rightarrow> nat \<lfloor>q\<rfloor> | _ \<Rightarrow> 0)"

text \<open>
  The upper-case form of a character, for the letters \<open>a\<close> to \<open>z\<close>; the case-insensitive
  match of the pattern below only asks whether it is \<open>K\<close>, \<open>M\<close> or \<open>B\<close>.
\<close>

definition to_upper :: "char \<Rightarrow> char" where
  "to_upper c =
     (case map_of (zip ''abcdefghijklmnopqrstuvwxyz'' ''ABCDEFGHIJKLMNOPQRSTUVWXYZ'') c of
        Some C \<Rightarrow> C
      | None \<Rightarrow> c)"

text \<open>
  \<open>/^(\d+)(KB|MB|K|M)$/i.exec(s)\<close>: the two groups, or \<open>None\<close> for \<open>null\<close>. The digits are
  the longest prefix of digits, since no unit starts with a digit; the rest must be one of
  the four units, compared without regard to case.
\<close>

definition size_regex_exec :: "string \<Rightarrow> (string \<times> string) option" where
  "size_regex_exec s =
     (let d = takeWhile isDigit s; u = dropWhile isDigit s
      in if d \<noteq> [] \<and> map to_upper u \<in> set [''KB'', ''MB'', ''K'', ''M'']
         then Some (d, u) else None)"

text \<open>The \<open>switch\<close> on the unit: \<open>None\<close> when no case matches and the function returns \<open>undefined\<close>.\<close>

definition unit_of :: "string \<Rightarrow> nat option" where
  "unit_of x =
     (if x = ''k'' \<or> x = ''K'' then Some 1024
      else if x = ''m'' \<or> x = ''M'' then Some 1048576
      else if x = ''kb'' \<or> x = ''KB'' then Some 1000
      else if x = ''mb'' \<or> x = ''MB'' then Some 1000000
      else None)"

text \<open>
  The string the regular expression is matched against, for a size with \<open>isNaN(size)\<close>:
  the string itself, or \<open>"NaN"\<close> for the number \<open>NaN\<close> (no other primitive is \<open>NaN\<close> as a
  number).
\<close>

definition size_string :: "jsval \<Rightarrow> string" where
  "size_string v = (case v of JStr s \<Rightarrow> s | _ \<Rightarrow> ''NaN'')"

text \<open>
  The block \<open>if (byLines) { ... }\<close>, on the store: \<open>_options\<close> is the caller's object,
  \<open>options\<close> the object being built.
\<close>

definition check_lines :: "nat \<Rightarrow> nat \<Rightarrow> heap \<Rightarrow> heap \<times> error option" where
  "check_lines options_in options h =
     (let v = the_value (raw_lines (read_raw h options_in))
      in if isNaN v \<or> \<not> isSafe (ToNumber v) \<or> js_less (ToNumber v) (Fin 1)
         then (h, Some (Error ''Invalid number of lines''))
         else (assign options (\<lambda>c. c\<lparr>lines := Some (the_nat (Math_floor (ToNumber v)))\<rparr>) h,
               None))"

text \<open>The block \<open>if (byBytes || byLineBytes) { ... }\<close>.\<close>

definition check_bytes :: "bool \<Rightarrow> nat \<Rightarrow> nat \<Rightarrow> heap \<Rightarrow> heap \<times> error option" where
  "check_bytes byBytes options_in options h =
     (let sz = the_value (if byBytes then raw_bytes (read_raw h options_in)
                          else raw_line_bytes (read_raw h options_in));
          store = (\<lambda>n. if byBytes then assign options (\<lambda>c. c\<lparr>bytes := Some n\<rparr>) h
                       else assign options (\<lambda>c. c\<lparr>line_bytes := Some n\<rparr>) h)
      in if isNaN sz then
           (case size_regex_exec (size_string sz) of
              None \<Rightarrow> (h, Some (Error ''Invalid number of bytes''))
            | Some (digits, x) \<Rightarrow>
                (let product = (case unit_of x of
                                  None \<Rightarrow> NaN
                                | Some unit \<Rightarrow>
                                    js_times (StringToNumber digits) (Fin (of_nat unit)))
                 in if \<not> isSafe product
                    then (h, Some (Error ''Invalid number of bytes''))
                    else (store (the_nat product), None)))
         else if \<not> isSafe (ToNumber sz) \<or> js_less (ToNumber sz) (Fin 1)
           then (h, Some (Error ''Invalid number of bytes''))
           else (store (the_nat (Math_floor (ToNumber sz))), None))"

text \<open>The block \<open>if (isDefined('prefix', _options)) { ... }\<close>.\<close>

definition check_prefix :: "nat \<Rightarrow> nat \<Rightarrow> heap \<Rightarrow> heap \<times> error option" where
  "check_prefix options_in options h =
     (let h1 = assign options
                 (\<lambda>c. c\<lparr>prefix := Some ([] @ the_value (raw_prefix (read_raw h options_in)))\<rparr>) h;
          sl = raw_suffix_length (read_raw h1 options_in)
      in if isDefined sl \<and>
            (\<not> isSafe (ToNumber (the_value sl)) \<or> js_less (ToNumber (the_value sl)) (Fin 1))
         then (h1, Some (Error ''Invalid suffix length''))
         else
           (let h2 = (if isDefined sl
                      then assign options
                             (\<lambda>c. c\<lparr>suffix_length :=
                                       Some (the_nat (Math_floor (ToNumber (the_value sl))))\<rparr>) h1
                      else h1);
                ns = raw_numeric_suffixes (read_raw h2 options_in)
            in if isDefined ns \<and>
                  (\<not> isSafe (ToNumber (the_value ns)) \<or> js_less (ToNumber (the_value ns)) (Fin 0))
               then (h2, Some (Error []))
               else
                 (let h3 = (if isDefined ns
                            then assign options
                                   (\<lambda>c. c\<lparr>numeric_suffixes :=
                                             Some (the_nat (Math_floor (ToNumber (the_value ns))))\<rparr>) h2
                            else h2);
                      ad = raw_additional_suffix (read_raw h3 options_in)
                  in (assign options
                        (\<lambda>c. c\<lparr>additional_suffix :=
                                  Some (if isDefined ad then the_value ad @ [] else [])\<rparr>) h3,
                      None))))"

text \<open>
  \<open>checkOptions(_options)\<close>: the store after the call, and the error thrown or the
  address of the object returned. \<open>var options = {}\<close> allocates before anything is
  checked.
\<close>

definition checkOptions :: "heap \<Rightarrow> jsarg \<Rightarrow> heap \<times> (error + nat)" where
  "checkOptions h arg =
     (let (h0, options) = alloc h (Cfg empty_config)
      in case arg of
           NotAnObject \<Rightarrow> (h0, Inl (TypeError ''Options must be an object''))
         | NullArg \<Rightarrow> (h0, Inl (TypeError ''Options must be an object''))
         | ObjRef options_in \<Rightarrow>
             (let byLines = isDefined (raw_lines (read_raw h0 options_in));
                  byBytes = isDefined (raw_bytes (read_raw h0 options_in));
                  byLineBytes = isDefined (raw_line_bytes (read_raw h0 options_in))
              in if (byLines \<and> byBytes) \<or> (byBytes \<and> byLineBytes) \<or> (byLines \<and> byLineBytes)
                 then (h0, Inl (Error ''Cannot split in more than one way''))
                 else if \<not> byLines \<and> \<not> byBytes \<and> \<not> byLineBytes
                 then (h0, Inl (Error ''Splitting way is not specified''))
                 else
                   (case (if byLines then check_lines options_in options h0 else (h0, None)) of
                      (h1, Some e) \<Rightarrow> (h1, Inl e)
                    | (h1, None) \<Rightarrow>
                        (case (if byBytes \<or> byLineBytes
                               then check_bytes byBytes options_in options h1 else (h1, None)) of
                           (h2, Some e) \<Rightarrow> (h2, Inl e)
                         | (h2, None) \<Rightarrow>
                             (case (if isDefined (raw_prefix (read_raw h2 options_in))
                                    then check_prefix options_in options h2 else (h2, None)) of
                                (h3, Some e) \<Rightarrow> (h3, Inl e)
                              | (h3, None) \<Rightarrow> (h3, Inr options))))))"

section \<open>Choosing the strategy\<close>

text \<open>
  \<open>_split(buffer, options)\<close>. The last branch maps \<open>splitByBytes\<close> over the lines and
  appends the results in order; it returns when every call returns. Without a
  \<open>line_bytes\<close> key the size is \<open>undefined\<close>: no line is cut off at a number, and the loop
  of \<open>splitByBytes\<close> never ends on a line (there is none in an empty buffer).
\<close>

definition split_internal :: "buffer \<Rightarrow> config \<Rightarrow> buffer list option" where
  "split_internal buffer options =
     (if lines options \<noteq> None then Some (splitByLines buffer (the (lines options)))
      else if bytes options \<noteq> None then splitByBytes buffer (the (bytes options))
      else case line_bytes options of
             Some n \<Rightarrow>
               map_option (foldl (\<lambda>acc line. acc @ line) [])
                 (those (map (\<lambda>line. splitByBytes line n) (splitByLines buffer 1)))
           | None \<Rightarrow> (if buffer = [] then Some [] else None))"

section \<open>The filename generator\<close>

text \<open>
  The loop of \<open>getSuffixLength\<close>: \<open>length\<close> is replaced by
  \<open>Math.floor(length / symbolLength)\<close> until that is \<open>0\<close> (or \<open>NaN\<close>, from \<open>0 / 0\<close>), and
  the replacements that were not are counted. With \<open>symbolLength = 0\<close> and \<open>length > 0\<close> the
  quotient is \<open>Infinity\<close> for ever, and with \<open>symbolLength = 1\<close> it never changes: the result
  is \<open>None\<close> then.
\<close>

partial_function (option) getSuffixLength_loop :: "nat \<Rightarrow> nat \<Rightarrow> nat \<Rightarrow> nat option" where
  "getSuffixLength_loop len symbolLength count =
     (if symbolLength = 0 then (if len = 0 then Some count else None)
      else if len div symbolLength \<noteq> 0
           then getSuffixLength_loop (len div symbolLength) symbolLength (count + 1)
           else Some count)"

declare getSuffixLength_loop.simps [code]

definition getSuffixLength :: "nat \<Rightarrow> nat \<Rightarrow> nat option" where
  "getSuffixLength len symbolLength = getSuffixLength_loop len symbolLength 0"

text \<open>\<open>a + b\<close> and \<open>a - b\<close> on numbers.\<close>

definition js_plus :: "jsnum \<Rightarrow> jsnum \<Rightarrow> jsnum" where
  "js_plus a b =
     (case (a, b) of
        (NaN, _) \<Rightarrow> NaN
      | (_, NaN) \<Rightarrow> NaN
      | (Fin x, Fin y) \<Rightarrow> roundToDouble (x + y)
      | (PosInf, NegInf) \<Rightarrow> NaN
      | (NegInf, PosInf) \<Rightarrow> NaN
      | (PosInf, _) \<Rightarrow> PosInf
      | (_, PosInf) \<Rightarrow> PosInf
      | (NegInf, _) \<Rightarrow> NegInf
      | (_, NegInf) \<Rightarrow> NegInf)"

definition js_negate :: "jsnum \<Rightarrow> jsnum" where
  "js_negate a = (case a of NaN \<Rightarrow> NaN | PosInf \<Rightarrow> NegInf | NegInf \<Rightarrow> PosInf | Fin x \<Rightarrow> Fin (- x))"

definition js_minus :: "jsnum \<Rightarrow> jsnum \<Rightarrow> jsnum" where
  "js_minus a b = js_plus a (js_negate b)"

text \<open>
  The string of a number that is a non-negative integer below \<open>10^21\<close>: its decimal
  digits.
\<close>

fun decimal :: "nat \<Rightarrow> string" where
  "decimal n =
     (if n < 10 then [''0123456789'' ! n]
      else decimal (n div 10) @ [''0123456789'' ! (n mod 10)])"

declare decimal.simps [simp del]

definition alphabet :: string where
  "alphabet = ''abcdefghijklmnopqrstuvwxyz''"

text \<open>
  The inner loop of the alphabetic branch:
  \<open>for (var n = i; n > 0; n = Math.floor(n / alphabet.length)) suffix.push(alphabet[n % alphabet.length])\<close>.
\<close>

function suffix_loop :: "nat \<Rightarrow> string" where
  "suffix_loop n =
     (if 0 < n then alphabet ! (n mod length alphabet) # suffix_loop (n div length alphabet)
      else [])"
  by pat_completeness auto
termination
  by (relation "measure (\<lambda>n. n)") (auto simp: alphabet_def)

declare suffix_loop.simps [simp del]

text \<open>\<open>s.slice(-n)\<close> on a string, for \<open>n \<ge> 0\<close>: the last \<open>n\<close> characters; all of \<open>s\<close> for \<open>n = 0\<close>.\<close>

definition slice_last :: "nat \<Rightarrow> string \<Rightarrow> string" where
  "slice_last n s = (if n = 0 then s else drop (length s - n) s)"

text \<open>A string key in a concatenation: \<open>"undefined"\<close> when the key was never assigned.\<close>

definition string_of :: "string option \<Rightarrow> string" where
  "string_of x = (case x of None \<Rightarrow> ''undefined'' | Some s \<Rightarrow> s)"

text \<open>
  \<open>replicate(length, value).join('')\<close> for a one-character value. \<open>new Array(length)\<close>
  throws a \<open>RangeError\<close> for a length above \<open>2^32 - 1\<close>.
\<close>

definition replicate_join :: "nat \<Rightarrow> char \<Rightarrow> error + string" where
  "replicate_join len v =
     (if 2 ^ 32 - 1 < len then Inl (RangeError ''Invalid array length'')
      else Inr (replicate len v))"

text \<open>
  \<open>createFilenames(size, options)\<close> on the store: \<open>None\<close> if it does not return, else the
  store after the call and the error thrown or the filenames. \<open>size\<close> is the length of
  an array.
\<close>

definition createFilenames ::
  "nat \<Rightarrow> nat \<Rightarrow> heap \<Rightarrow> (heap \<times> (error + string list)) option" where
  "createFilenames sz options h =
     (if numeric_suffixes (read_cfg h options) \<noteq> None then
        (if \<not> isSafe (js_minus
               (js_plus (Fin (of_nat (the (numeric_suffixes (read_cfg h options)))))
                  (Fin (of_nat sz)))
               (Fin 1))
         then Some (h, Inl (Error []))
         else case getSuffixLength sz 10 of
                None \<Rightarrow> None
              | Some l \<Rightarrow>
                  (if suffix_length (read_cfg h options) \<noteq> None
                      \<and> the (suffix_length (read_cfg h options)) < l
                   then Some (h, Inl (Error []))
                   else
                     (let h1 = (if suffix_length (read_cfg h options) \<noteq> None then h
                                else assign options (\<lambda>c. c\<lparr>suffix_length := Some (max l 2)\<rparr>) h);
                          opts = read_cfg h1 options
                      in case replicate_join (the (suffix_length opts)) (CHR ''0'') of
                           Inl e \<Rightarrow> Some (h1, Inl e)
                         | Inr padding \<Rightarrow>
                             Some (h1, Inr (map (\<lambda>i.
                               string_of (prefix opts)
                               @ slice_last (the (suffix_length opts))
                                   (padding @ decimal (the_nat
                                      (js_plus (Fin (of_nat (the (numeric_suffixes opts))))
                                         (Fin (of_nat i)))))
                               @ string_of (additional_suffix opts)) [0..<sz])))))
      else
        (case getSuffixLength sz (length alphabet) of
           None \<Rightarrow> None
         | Some l \<Rightarrow>
             (if suffix_length (read_cfg h options) \<noteq> None
                 \<and> the (suffix_length (read_cfg h options)) < l
              then Some (h, Inl (Error ''output file suffixes exhausted''))
              else
                (let h1 = (if suffix_length (read_cfg h options) \<noteq> None then h
                           else assign options (\<lambda>c. c\<lparr>suffix_length := Some (max l 2)\<rparr>) h);
                     opts = read_cfg h1 options
                 in case replicate_join (the (suffix_length opts)) (CHR ''a'') of
                      Inl e \<Rightarrow> Some (h1, Inl e)
                    | Inr padding \<Rightarrow>
                        Some (h1, Inr (map (\<lambda>i.
                          string_of (prefix opts)
                          @ slice_last (the (suffix_length opts))
                              (padding @ rev (suffix_loop i))
                          @ string_of (additional_suffix opts)) [0..<sz]))))))"

section \<open>The non-blocking entry point\<close>

text \<open>A call of the caller's callback: \<open>callback(err)\<close> or \<open>callback(null, splitted)\<close>.\<close>

datatype notification = is_Failure: Failure error | is_Success: Success "buffer list"

text \<open>The variables \<open>done\<close> and \<open>errored\<close> the write callbacks share.\<close>

record progress =
  done_count :: nat
  errored :: bool

text \<open>
  The callback \<open>split\<close> passes to \<open>fs.writeFile\<close>, run with the error of a failed write
  or with none: the variables after it, and the calls of the caller's callback it makes.
\<close>

definition write_callback ::
  "buffer list \<Rightarrow> error option \<Rightarrow> progress \<Rightarrow> progress \<times> notification list" where
  "write_callback splitted err st =
     (case err of
        Some e \<Rightarrow> (st\<lparr>errored := True\<rparr>, [Failure e])
      | None \<Rightarrow>
          (let st' = st\<lparr>done_count := done_count st + 1\<rparr>
           in (st', if \<not> errored st' \<and> done_count st' = length splitted
                    then [Success splitted] else [])))"

text \<open>The write callbacks run one after another, in the order the writes complete.\<close>

fun run_callbacks ::
  "buffer list \<Rightarrow> error option list \<Rightarrow> progress \<Rightarrow> notification list" where
  "run_callbacks splitted [] st = []"
| "run_callbacks splitted (r # rs) st =
     (case write_callback splitted r st of
        (st', ns) \<Rightarrow> ns @ run_callbacks splitted rs st')"

text \<open>
  What a call of \<open>split\<close> does: the store after it, the writes it issues (file name and
  content, in piece order) and the calls of the caller's callback, in order.
\<close>

record outcome =
  store_after :: heap
  writes_issued :: "(string \<times> buffer) list"
  notifications :: "notification list"

text \<open>
  \<open>split(buffer, options, callback)\<close>. The file system decides how each write ends:
  \<open>results\<close> lists, in the order the writes complete, the error of each (\<open>None\<close> for a
  write that succeeded); one write is issued per piece, so at most that many complete.
  The result is \<open>None\<close> if the call does not return.
\<close>

definition split_async ::
  "heap \<Rightarrow> buffer \<Rightarrow> jsarg \<Rightarrow> error option list \<Rightarrow> outcome option" where
  "split_async h buffer arg results =
     (case checkOptions h arg of
        (h1, Inl err) \<Rightarrow>
          Some \<lparr>store_after = h1, writes_issued = [], notifications = [Failure err]\<rparr>
      | (h1, Inr options) \<Rightarrow>
          (case split_internal buffer (read_cfg h1 options) of
             None \<Rightarrow> None
           | Some splitted \<Rightarrow>
               (if prefix (read_cfg h1 options) \<noteq> None then
                  (case createFilenames (length splitted) options h1 of
                     None \<Rightarrow> None
                   | Some (h2, Inl err) \<Rightarrow>
                       Some \<lparr>store_after = h2, writes_issued = [],
                             notifications = [Failure err]\<rparr>
                   | Some (h2, Inr filenames) \<Rightarrow>
                       Some \<lparr>store_after = h2, writes_issued = zip filenames splitted,
                             notifications =
                               run_callbacks splitted (take (length splitted) results)
                                 \<lparr>done_count = 0, errored = False\<rparr>\<rparr>)
                else
                  Some \<lparr>store_after = h1, writes_issued = [],
                        notifications = [Success splitted]\<rparr>)))"

section \<open>Example inputs\<close>

text \<open>The options object \<open>{}\<close>.\<close>

definition no_options :: raw_options where
  "no_options = \<lparr>raw_lines = Absent, raw_bytes = Absent, raw_line_bytes = Absent,
     raw_prefix = Absent, raw_suffix_length = Absent, raw_additional_suffix = Absent,
     raw_numeric_suffixes = Absent\<rparr>"

text \<open>The options objects \<open>{bytes: s}\<close> and \<open>{line_bytes: s}\<close> for a string \<open>s\<close>.\<close>

definition size_options :: "bool \<Rightarrow> string \<Rightarrow> raw_options" where
  "size_options byBytes s =
     (if byBytes then no_options\<lparr>raw_bytes := Value (JStr s)\<rparr>
      else no_options\<lparr>raw_line_bytes := Value (JStr s)\<rparr>)"

text \<open>The configuration records \<open>{bytes: n}\<close> and \<open>{line_bytes: n}\<close>.\<close>

definition size_config :: "bool \<Rightarrow> nat \<Rightarrow> config" where
  "size_config byBytes n =
     (if byBytes then empty_config\<lparr>bytes := Some n\<rparr>
      else empty_config\<lparr>line_bytes := Some n\<rparr>)"

text \<open>
  The units of the specification and their multipliers, each written all in upper case
  or all in lower case: \<open>K\<close> and \<open>M\<close> are powers of 1024, \<open>KB\<close> and \<open>MB\<close> powers of
  1000.
\<close>

definition spec_units :: "(string \<times> nat) list" where
  "spec_units =
     [(''K'', 1024), (''k'', 1024), (''M'', 1048576), (''m'', 1048576),
      (''KB'', 1000), (''kb'', 1000), (''MB'', 1000000), (''mb'', 1000000)]"

section \<open>The splitter: lemmas\<close>

lemma buffer_slice_append_drop:
  "b \<le> e \<Longrightarrow> buffer_slice b e buffer @ drop e buffer = drop b buffer"
proof -
  assume "b \<le> e"
  then have "drop e buffer = drop (e - b) (drop b buffer)" by simp
  then show ?thesis unfolding buffer_slice_def by (metis append_take_drop_id)
qed

lemma splitByLines_loop_concat:
  "b \<le> index \<Longrightarrow> b \<le> length buffer \<Longrightarrow>
   concat (splitByLines_loop buffer n b index lineCount splitted)
     = concat splitted @ drop b buffer"
proof (induction buffer n b index lineCount splitted rule: splitByLines_loop.induct)
  case (1 buffer n b index lineCount splitted)
  show ?case
    using "1.prems" "1.IH"
    by (subst splitByLines_loop.simps) (auto simp: buffer_slice_append_drop)
qed

lemma splitByLines_loop_nonempty:
  "b \<le> index \<Longrightarrow> b \<le> length buffer \<Longrightarrow> [] \<notin> set splitted \<Longrightarrow>
   [] \<notin> set (splitByLines_loop buffer n b index lineCount splitted)"
proof (induction buffer n b index lineCount splitted rule: splitByLines_loop.induct)
  case (1 buffer n b index lineCount splitted)
  show ?case
    using "1.prems" "1.IH"
    by (subst splitByLines_loop.simps) (auto simp: buffer_slice_def)
qed

lemma splitByLines_concat: "concat (splitByLines buffer n) = buffer"
  by (simp add: splitByLines_def splitByLines_loop_concat)

lemma splitByLines_nonempty: "[] \<notin> set (splitByLines buffer n)"
  by (simp add: splitByLines_def splitByLines_loop_nonempty)

lemma chunks_Nil: "chunks k [] = []"
  by (simp add: chunks.simps)

lemma chunks_step:
  "0 < k \<Longrightarrow> xs \<noteq> [] \<Longrightarrow> chunks k xs = take k xs # chunks k (drop k xs)"
  by (subst chunks.simps) simp

lemma splitByBytes_loop_chunks:
  "0 < sz \<Longrightarrow> b \<le> length buffer \<Longrightarrow>
   splitByBytes_loop buffer sz b (b + sz) splitted
     = Some (splitted @ chunks sz (drop b buffer))"
proof (induction "length buffer - b" arbitrary: b splitted rule: less_induct)
  case less
  show ?case
  proof (cases "b = length buffer")
    case True
    then show ?thesis
      by (subst splitByBytes_loop.simps) (simp add: chunks_Nil)
  next
    case False
    with less.prems have lt: "b < length buffer" by simp
    show ?thesis
    proof (cases "length buffer < b + sz")
      case True
      with lt less.prems show ?thesis
        by (subst splitByBytes_loop.simps) (simp add: chunks_step chunks_Nil)
    next
      case ge: False
      have step: "splitByBytes_loop buffer sz b (b + sz) splitted
        = splitByBytes_loop buffer sz (b + sz) (b + sz + sz)
            (splitted @ [buffer_slice b (b + sz) buffer])"
        using False ge by (subst splitByBytes_loop.simps) simp
      have "splitByBytes_loop buffer sz (b + sz) (b + sz + sz)
            (splitted @ [buffer_slice b (b + sz) buffer])
        = Some ((splitted @ [buffer_slice b (b + sz) buffer])
                 @ chunks sz (drop (b + sz) buffer))"
        using less.prems ge lt by (intro less.hyps) auto
      moreover have "chunks sz (drop b buffer)
        = buffer_slice b (b + sz) buffer # chunks sz (drop (b + sz) buffer)"
        using less.prems lt
        by (simp add: chunks_step buffer_slice_def add.commute)
      ultimately show ?thesis using step by simp
    qed
  qed
qed

lemma splitByBytes_chunks: "0 < sz \<Longrightarrow> splitByBytes buffer sz = Some (chunks sz buffer)"
  using splitByBytes_loop_chunks [of sz 0 buffer "[]"] by (simp add: splitByBytes_def)

lemma concat_chunks: "0 < k \<Longrightarrow> concat (chunks k xs) = xs"
proof (induction k xs rule: chunks.induct)
  case (1 k xs)
  then show ?case
    by (cases "xs = []") (simp_all add: chunks_Nil chunks_step)
qed

lemma chunks_nonempty: "[] \<notin> set (chunks k xs)"
proof (induction k xs rule: chunks.induct)
  case (1 k xs)
  show ?case
  proof (cases "k = 0 \<or> xs = []")
    case True
    then show ?thesis by (subst chunks.simps) simp
  next
    case False
    with 1 show ?thesis by (subst chunks.simps) auto
  qed
qed

lemma length_chunks: "0 < k \<Longrightarrow> length (chunks k xs) = (length xs + k - 1) div k"
proof (induction k xs rule: chunks.induct)
  case (1 k xs)
  show ?case
  proof (cases "xs = []")
    case True
    with "1.prems" show ?thesis by (simp add: chunks_Nil)
  next
    case False
    then obtain m where m: "length xs = Suc m"
      by (cases xs) auto
    have unfold: "length (chunks k xs) = Suc (length (chunks k (drop k xs)))"
      using False "1.prems" by (simp add: chunks_step [of k xs])
    have ih: "length (chunks k (drop k xs)) = (length (drop k xs) + k - 1) div k"
      using "1.IH" "1.prems" False by blast
    have "Suc ((length (drop k xs) + k - 1) div k) = (length xs + k - 1) div k"
    proof (cases "k \<le> length xs")
      case True
      then have "length (drop k xs) + k - 1 = m" using m by simp
      moreover have "length xs + k - 1 = m + k" using m by simp
      moreover have "(m + k) div k = Suc (m div k)" using "1.prems" by simp
      ultimately show ?thesis by (simp only:)
    next
      case lt: False
      then have "length (drop k xs) + k - 1 = k - 1" by simp
      moreover have "(k - 1) div k = 0" using "1.prems" by simp
      moreover have "length xs + k - 1 = m + k" using m by simp
      moreover have "(m + k) div k = Suc (m div k)" using "1.prems" by simp
      moreover have "m div k = 0" using lt m by simp
      ultimately show ?thesis by (simp only:)
    qed
    with unfold ih show ?thesis by (simp only:)
  qed
qed

lemma nth_chunks:
  "0 < k \<Longrightarrow> i < length (chunks k xs) \<Longrightarrow> chunks k xs ! i = take k (drop (i * k) xs)"
proof (induction k xs arbitrary: i rule: chunks.induct)
  case (1 k xs)
  show ?case
  proof (cases "xs = []")
    case True
    with "1.prems" show ?thesis by (simp add: chunks_Nil)
  next
    case False
    show ?thesis
    proof (cases i)
      case 0
      with False "1.prems" show ?thesis by (simp add: chunks_step)
    next
      case (Suc j)
      with False "1.prems" have "j < length (chunks k (drop k xs))"
        by (simp add: chunks_step)
      with 1 False have "chunks k (drop k xs) ! j = take k (drop (j * k) (drop k xs))"
        by simp
      with Suc False "1.prems" show ?thesis by (simp add: chunks_step add.commute)
    qed
  qed
qed

section \<open>The validator: lemmas\<close>

lemma length_assign: "length (assign a f h) = length h"
  by (simp add: assign_def)

lemma nth_assign_other: "x \<noteq> a \<Longrightarrow> assign a f h ! x = h ! x"
  by (simp add: assign_def)

lemma read_cfg_assign: "a < length h \<Longrightarrow> read_cfg (assign a f h) a = f (read_cfg h a)"
  by (simp add: assign_def read_cfg_def)

lemma read_raw_assign: "x \<noteq> a \<Longrightarrow> read_raw (assign a f h) x = read_raw h x"
  by (simp add: read_raw_def nth_assign_other)

lemma check_lines_frame:
  assumes "check_lines r a h = (h', res)"
  shows "length h' = length h \<and> (\<forall>x. x \<noteq> a \<longrightarrow> h' ! x = h ! x)"
  using assms
  by (auto simp: check_lines_def Let_def length_assign nth_assign_other split: if_splits)

lemma check_lines_cfg:
  assumes "check_lines r a h = (h', res)" and "a < length h"
  shows "bytes (read_cfg h' a) = bytes (read_cfg h a)
       \<and> line_bytes (read_cfg h' a) = line_bytes (read_cfg h a)
       \<and> (res = None \<longrightarrow> lines (read_cfg h' a) \<noteq> None)
       \<and> (res \<noteq> None \<longrightarrow> h' = h)"
  using assms
  by (auto simp: check_lines_def Let_def read_cfg_assign split: if_splits)

lemma check_bytes_frame:
  assumes "check_bytes byBytes r a h = (h', res)"
  shows "length h' = length h \<and> (\<forall>x. x \<noteq> a \<longrightarrow> h' ! x = h ! x)"
  using assms
  by (auto simp: check_bytes_def Let_def length_assign nth_assign_other
           split: if_splits option.splits prod.splits)

lemma check_bytes_cfg:
  assumes "check_bytes byBytes r a h = (h', res)" and "a < length h"
  shows "lines (read_cfg h' a) = lines (read_cfg h a)
       \<and> (byBytes \<longrightarrow> line_bytes (read_cfg h' a) = line_bytes (read_cfg h a))
       \<and> (\<not> byBytes \<longrightarrow> bytes (read_cfg h' a) = bytes (read_cfg h a))
       \<and> (res = None \<longrightarrow> (if byBytes then bytes (read_cfg h' a) else line_bytes (read_cfg h' a)) \<noteq> None)
       \<and> (res \<noteq> None \<longrightarrow> h' = h)"
  using assms
  by (auto simp: check_bytes_def Let_def read_cfg_assign
           split: if_splits option.splits prod.splits)

lemma check_prefix_frame:
  assumes "check_prefix r a h = (h', res)"
  shows "length h' = length h \<and> (\<forall>x. x \<noteq> a \<longrightarrow> h' ! x = h ! x)"
  using assms
  by (auto simp: check_prefix_def Let_def length_assign nth_assign_other split: if_splits)

lemma check_prefix_cfg:
  assumes "check_prefix r a h = (h', res)" and "a < length h"
  shows "lines (read_cfg h' a) = lines (read_cfg h a)
       \<and> bytes (read_cfg h' a) = bytes (read_cfg h a)
       \<and> line_bytes (read_cfg h' a) = line_bytes (read_cfg h a)"
  using assms
  by (auto simp: check_prefix_def Let_def length_assign read_cfg_assign split: if_splits)

lemma checkOptions_InrE:
  assumes "checkOptions h (ObjRef r) = (h', Inr a)"
  obtains h1 h2 byLines byBytes byLineBytes where
    "a = length h"
    "byLines = isDefined (raw_lines (read_raw (h @ [Cfg empty_config]) r))"
    "byBytes = isDefined (raw_bytes (read_raw (h @ [Cfg empty_config]) r))"
    "byLineBytes = isDefined (raw_line_bytes (read_raw (h @ [Cfg empty_config]) r))"
    "\<not> (byLines \<and> byBytes)" "\<not> (byBytes \<and> byLineBytes)" "\<not> (byLines \<and> byLineBytes)"
    "byLines \<or> byBytes \<or> byLineBytes"
    "(if byLines then check_lines r a (h @ [Cfg empty_config])
      else (h @ [Cfg empty_config], None)) = (h1, None)"
    "(if byBytes \<or> byLineBytes then check_bytes byBytes r a h1 else (h1, None)) = (h2, None)"
    "(if isDefined (raw_prefix (read_raw h2 r)) then check_prefix r a h2 else (h2, None))
       = (h', None)"
  using assms
  unfolding checkOptions_def alloc_def Let_def
  by (simp split: if_splits prod.splits option.splits; blast)

lemma checkOptions_Inr_not_object:
  "checkOptions h NotAnObject \<noteq> (h', Inr a)" "checkOptions h NullArg \<noteq> (h', Inr a)"
  by (simp_all add: checkOptions_def alloc_def)

lemma read_cfg_fresh: "read_cfg (h @ [Cfg c]) (length h) = c"
  by (simp add: read_cfg_def)

lemma checkOptions_modes:
  assumes "checkOptions h arg = (h', Inr a)"
  shows "(lines (read_cfg h' a) \<noteq> None \<and> bytes (read_cfg h' a) = None
            \<and> line_bytes (read_cfg h' a) = None)
       \<or> (lines (read_cfg h' a) = None \<and> bytes (read_cfg h' a) \<noteq> None
            \<and> line_bytes (read_cfg h' a) = None)
       \<or> (lines (read_cfg h' a) = None \<and> bytes (read_cfg h' a) = None
            \<and> line_bytes (read_cfg h' a) \<noteq> None)"
proof (cases arg)
  case NotAnObject
  with assms show ?thesis by (simp add: checkOptions_Inr_not_object)
next
  case NullArg
  with assms show ?thesis by (simp add: checkOptions_Inr_not_object)
next
  case (ObjRef r)
  with assms have eq: "checkOptions h (ObjRef r) = (h', Inr a)" by simp
  define h0 where "h0 = h @ [Cfg empty_config]"
  from eq obtain h1 h2 byLines byBytes byLineBytes where
    a: "a = length h"
    and excl: "\<not> (byLines \<and> byBytes)" "\<not> (byBytes \<and> byLineBytes)" "\<not> (byLines \<and> byLineBytes)"
      "byLines \<or> byBytes \<or> byLineBytes"
    and s1: "(if byLines then check_lines r a h0 else (h0, None)) = (h1, None)"
    and s2: "(if byBytes \<or> byLineBytes then check_bytes byBytes r a h1 else (h1, None))
               = (h2, None)"
    and s3: "(if isDefined (raw_prefix (read_raw h2 r)) then check_prefix r a h2 else (h2, None))
               = (h', None)"
    unfolding h0_def by (rule checkOptions_InrE)
  have c0: "read_cfg h0 a = empty_config" and l0: "a < length h0"
    by (simp_all add: h0_def a read_cfg_fresh)
  have l1: "length h1 = length h0"
    using s1 check_lines_frame [of r a h0 h1 None] by (auto split: if_splits)
  have c1: "lines (read_cfg h1 a) \<noteq> None \<longleftrightarrow> byLines"
    "bytes (read_cfg h1 a) = None" "line_bytes (read_cfg h1 a) = None"
    using s1 check_lines_cfg [of r a h0 h1 None] l0 c0
    by (auto simp: empty_config_def split: if_splits)
  have l2: "length h2 = length h0"
    using s2 check_bytes_frame [of byBytes r a h1 h2 None] l1 by (auto split: if_splits)
  have c2: "lines (read_cfg h2 a) \<noteq> None \<longleftrightarrow> byLines"
    "bytes (read_cfg h2 a) \<noteq> None \<longleftrightarrow> byBytes"
    "line_bytes (read_cfg h2 a) \<noteq> None \<longleftrightarrow> byLineBytes"
    using s2 check_bytes_cfg [of byBytes r a h1 h2 None] l0 l1 c1 excl
    by (auto split: if_splits)
  have c3: "lines (read_cfg h' a) = lines (read_cfg h2 a)"
    "bytes (read_cfg h' a) = bytes (read_cfg h2 a)"
    "line_bytes (read_cfg h' a) = line_bytes (read_cfg h2 a)"
    using s3 check_prefix_cfg [of r a h2 h' None] l0 l2 by (auto split: if_splits)
  show ?thesis
    using c2 c3 excl by auto
qed

lemma checkOptions_frame:
  assumes "checkOptions h arg = (h', res)"
  shows "length h' = Suc (length h) \<and> (\<forall>x<length h. h' ! x = h ! x)
       \<and> (\<forall>a. res = Inr a \<longrightarrow> a = length h)"
proof -
  define h0 where "h0 = h @ [Cfg empty_config]"
  define P where "P = (\<lambda>k::heap. length k = Suc (length h) \<and> (\<forall>x<length h. k ! x = h ! x))"
  have P0: "P h0"
    by (simp add: P_def h0_def nth_append)
  have lines_step: "P (fst (if b then check_lines r (length h) k else (k, None)))"
    if "P k" for r b k
    using that check_lines_frame [of r "length h" k]
    by (cases "check_lines r (length h) k") (auto simp: P_def)
  have bytes_step: "P (fst (if b then check_bytes bb r (length h) k else (k, None)))"
    if "P k" for r b bb k
    using that check_bytes_frame [of bb r "length h" k]
    by (cases "check_bytes bb r (length h) k") (auto simp: P_def)
  have prefix_step: "P (fst (if b then check_prefix r (length h) k else (k, None)))"
    if "P k" for r b k
    using that check_prefix_frame [of r "length h" k]
    by (cases "check_prefix r (length h) k") (auto simp: P_def)
  have "P h' \<and> (\<forall>a. res = Inr a \<longrightarrow> a = length h)"
  proof (cases arg)
    case NotAnObject
    with assms P0 show ?thesis
      by (auto simp: checkOptions_def alloc_def h0_def)
  next
    case NullArg
    with assms P0 show ?thesis
      by (auto simp: checkOptions_def alloc_def h0_def)
  next
    case (ObjRef r)
    define byLines where "byLines = isDefined (raw_lines (read_raw h0 r))"
    define byBytes where "byBytes = isDefined (raw_bytes (read_raw h0 r))"
    define byLineBytes where "byLineBytes = isDefined (raw_line_bytes (read_raw h0 r))"
    define s1 where "s1 = (if byLines then check_lines r (length h) h0 else (h0, None))"
    define s2 where "s2 = (if byBytes \<or> byLineBytes
       then check_bytes byBytes r (length h) (fst s1) else (fst s1, None))"
    define s3 where "s3 = (if isDefined (raw_prefix (read_raw (fst s2) r))
       then check_prefix r (length h) (fst s2) else (fst s2, None))"
    have P1: "P (fst s1)" unfolding s1_def by (rule lines_step [OF P0])
    have P2: "P (fst s2)" unfolding s2_def by (rule bytes_step [OF P1])
    have P3: "P (fst s3)" unfolding s3_def by (rule prefix_step [OF P2])
    have unfold: "checkOptions h (ObjRef r) =
      (if (byLines \<and> byBytes) \<or> (byBytes \<and> byLineBytes) \<or> (byLines \<and> byLineBytes)
       then (h0, Inl (Error ''Cannot split in more than one way''))
       else if \<not> byLines \<and> \<not> byBytes \<and> \<not> byLineBytes
       then (h0, Inl (Error ''Splitting way is not specified''))
       else (case snd s1 of Some e \<Rightarrow> (fst s1, Inl e)
             | None \<Rightarrow> (case snd s2 of Some e \<Rightarrow> (fst s2, Inl e)
                 | None \<Rightarrow> (case snd s3 of Some e \<Rightarrow> (fst s3, Inl e)
                     | None \<Rightarrow> (fst s3, Inr (length h))))))"
      unfolding checkOptions_def alloc_def Let_def s3_def s2_def s1_def
        byLines_def byBytes_def byLineBytes_def h0_def
      by (simp only: case_prod_beta fst_conv snd_conv jsarg.case)
    show ?thesis
      using assms P0 P1 P2 P3 unfolding ObjRef unfold
      by (auto split: if_splits option.splits)
  qed
  then show ?thesis by (simp add: P_def)
qed

section \<open>Claims about the splitter and the validator\<close>

lemma those_map_Some: "those (map (\<lambda>x. Some (f x)) xs) = Some (map f xs)"
  by (induction xs) simp_all

lemma foldl_append_concat: "foldl (\<lambda>acc line. acc @ line) a xs = a @ concat xs"
  by (induction xs arbitrary: a) simp_all

lemma split_internal_lines:
  "lines c = Some n \<Longrightarrow> split_internal buffer c = Some (splitByLines buffer n)"
  by (simp add: split_internal_def)

lemma split_internal_bytes:
  "lines c = None \<Longrightarrow> bytes c = Some n \<Longrightarrow> 0 < n \<Longrightarrow>
   split_internal buffer c = Some (chunks n buffer)"
  by (simp add: split_internal_def splitByBytes_chunks)

lemma split_internal_line_bytes:
  "lines c = None \<Longrightarrow> bytes c = None \<Longrightarrow> line_bytes c = Some n \<Longrightarrow> 0 < n \<Longrightarrow>
   split_internal buffer c = Some (concat (map (chunks n) (splitByLines buffer 1)))"
  by (simp add: split_internal_def splitByBytes_chunks those_map_Some foldl_append_concat)

lemma concat_map_chunks: "0 < n \<Longrightarrow> concat (concat (map (chunks n) xss)) = concat xss"
  by (induction xss) (simp_all add: concat_chunks)

lemma split_internal_cases:
  assumes "checkOptions h arg = (h', Inr a)"
    and "\<forall>n. lines (read_cfg h' a) = Some n \<or> bytes (read_cfg h' a) = Some n
             \<or> line_bytes (read_cfg h' a) = Some n \<longrightarrow> 1 \<le> n"
  shows "(\<exists>n. split_internal buffer (read_cfg h' a) = Some (splitByLines buffer n))
       \<or> (\<exists>n>0. split_internal buffer (read_cfg h' a) = Some (chunks n buffer))
       \<or> (\<exists>n>0. split_internal buffer (read_cfg h' a)
                    = Some (concat (map (chunks n) (splitByLines buffer 1))))"
proof -
  let ?c = "read_cfg h' a"
  consider (byLines) "lines ?c \<noteq> None"
    | (byBytes) "lines ?c = None" "bytes ?c \<noteq> None"
    | (byLineBytes) "lines ?c = None" "bytes ?c = None" "line_bytes ?c \<noteq> None"
    using checkOptions_modes [OF assms(1)] by blast
  then show ?thesis
  proof cases
    case byLines
    then obtain n where "lines ?c = Some n" by blast
    then have "split_internal buffer ?c = Some (splitByLines buffer n)"
      by (rule split_internal_lines)
    then show ?thesis by blast
  next
    case byBytes
    then obtain n where n: "bytes ?c = Some n" by blast
    with assms(2) have "0 < n" by (simp add: Suc_le_eq)
    with byBytes(1) n have "split_internal buffer ?c = Some (chunks n buffer)"
      by (rule split_internal_bytes)
    with \<open>0 < n\<close> show ?thesis by blast
  next
    case byLineBytes
    then obtain n where n: "line_bytes ?c = Some n" by blast
    with assms(2) have "0 < n" by (simp add: Suc_le_eq)
    with byLineBytes(1,2) n have "split_internal buffer ?c
        = Some (concat (map (chunks n) (splitByLines buffer 1)))"
      by (rule split_internal_line_bytes)
    with \<open>0 < n\<close> show ?thesis by blast
  qed
qed

text \<open>
  Claim C1. For every buffer and every configuration the validator returns whose mode
  parameter (\<open>lines\<close>, \<open>bytes\<close> or \<open>line_bytes\<close>) is at least 1, \<open>_split\<close> returns, and
  the pieces it returns, appended in order, are the buffer: no byte is lost, duplicated
  or moved.
\<close>

theorem split_pieces_concat:
  assumes "checkOptions h arg = (h', Inr options)"
    and "\<forall>n. lines (read_cfg h' options) = Some n \<or> bytes (read_cfg h' options) = Some n
             \<or> line_bytes (read_cfg h' options) = Some n \<longrightarrow> 1 \<le> n"
  shows "\<exists>pieces. split_internal buffer (read_cfg h' options) = Some pieces
                 \<and> concat pieces = buffer"
  using split_internal_cases [OF assms, of buffer]
  by (auto simp: splitByLines_concat concat_chunks concat_map_chunks)

theorem split_pieces_concat_witness:
  "checkOptions [Raw (no_options\<lparr>raw_line_bytes := Value (JNum (Fin 2))\<rparr>)] (ObjRef 0)
     = ([Raw (no_options\<lparr>raw_line_bytes := Value (JNum (Fin 2))\<rparr>),
         Cfg (empty_config\<lparr>line_bytes := Some 2\<rparr>)], Inr 1)
   \<and> (\<exists>pieces. split_internal [1, 10, 2, 3, 4]
          (read_cfg [Raw (no_options\<lparr>raw_line_bytes := Value (JNum (Fin 2))\<rparr>),
                     Cfg (empty_config\<lparr>line_bytes := Some 2\<rparr>)] 1) = Some pieces
        \<and> concat pieces = [1, 10, 2, 3, 4])"
proof -
  have valid: "checkOptions [Raw (no_options\<lparr>raw_line_bytes := Value (JNum (Fin 2))\<rparr>)] (ObjRef 0)
     = ([Raw (no_options\<lparr>raw_line_bytes := Value (JNum (Fin 2))\<rparr>),
         Cfg (empty_config\<lparr>line_bytes := Some 2\<rparr>)], Inr 1)"
    by code_simp
  have mode: "\<forall>n. lines (read_cfg [Raw (no_options\<lparr>raw_line_bytes := Value (JNum (Fin 2))\<rparr>),
         Cfg (empty_config\<lparr>line_bytes := Some 2\<rparr>)] 1) = Some n
       \<or> bytes (read_cfg [Raw (no_options\<lparr>raw_line_bytes := Value (JNum (Fin 2))\<rparr>),
         Cfg (empty_config\<lparr>line_bytes := Some 2\<rparr>)] 1) = Some n
       \<or> line_bytes (read_cfg [Raw (no_options\<lparr>raw_line_bytes := Value (JNum (Fin 2))\<rparr>),
         Cfg (empty_config\<lparr>line_bytes := Some 2\<rparr>)] 1) = Some n \<longrightarrow> 1 \<le> n"
    by (simp add: read_cfg_def empty_config_def)
  show ?thesis
    using valid split_pieces_concat [OF valid mode, of "[1, 10, 2, 3, 4]"] by simp
qed

text \<open>
  Claim C9. For every buffer and every configuration the validator returns whose mode
  parameter is at least 1, \<open>_split\<close> returns and none of the pieces is empty, whichever
  of the three strategies is chosen.
\<close>

theorem split_pieces_nonempty:
  assumes "checkOptions h arg = (h', Inr options)"
    and "\<forall>n. lines (read_cfg h' options) = Some n \<or> bytes (read_cfg h' options) = Some n
             \<or> line_bytes (read_cfg h' options) = Some n \<longrightarrow> 1 \<le> n"
  shows "\<exists>pieces. split_internal buffer (read_cfg h' options) = Some pieces
                 \<and> (\<forall>piece \<in> set pieces. piece \<noteq> [])"
proof -
  have "[] \<notin> set (concat (map (chunks n) xss))" for n and xss :: "buffer list"
    using chunks_nonempty by (induction xss) auto
  then show ?thesis
    using split_internal_cases [OF assms, of buffer] splitByLines_nonempty chunks_nonempty
    by (metis)
qed

theorem split_pieces_nonempty_witness:
  "checkOptions [Raw (no_options\<lparr>raw_lines := Value (JNum (Fin 2))\<rparr>)] (ObjRef 0)
     = ([Raw (no_options\<lparr>raw_lines := Value (JNum (Fin 2))\<rparr>),
         Cfg (empty_config\<lparr>lines := Some 2\<rparr>)], Inr 1)
   \<and> (\<exists>pieces. split_internal [1, 10, 10, 3, 10]
          (read_cfg [Raw (no_options\<lparr>raw_lines := Value (JNum (Fin 2))\<rparr>),
                     Cfg (empty_config\<lparr>lines := Some 2\<rparr>)] 1) = Some pieces
        \<and> (\<forall>piece \<in> set pieces. piece \<noteq> []))"
proof -
  have valid: "checkOptions [Raw (no_options\<lparr>raw_lines := Value (JNum (Fin 2))\<rparr>)] (ObjRef 0)
     = ([Raw (no_options\<lparr>raw_lines := Value (JNum (Fin 2))\<rparr>),
         Cfg (empty_config\<lparr>lines := Some 2\<rparr>)], Inr 1)"
    by code_simp
  have mode: "\<forall>n. lines (read_cfg [Raw (no_options\<lparr>raw_lines := Value (JNum (Fin 2))\<rparr>),
         Cfg (empty_config\<lparr>lines := Some 2\<rparr>)] 1) = Some n
       \<or> bytes (read_cfg [Raw (no_options\<lparr>raw_lines := Value (JNum (Fin 2))\<rparr>),
         Cfg (empty_config\<lparr>lines := Some 2\<rparr>)] 1) = Some n
       \<or> line_bytes (read_cfg [Raw (no_options\<lparr>raw_lines := Value (JNum (Fin 2))\<rparr>),
         Cfg (empty_config\<lparr>lines := Some 2\<rparr>)] 1) = Some n \<longrightarrow> 1 \<le> n"
    by (simp add: read_cfg_def empty_config_def)
  show ?thesis
    using valid split_pieces_nonempty [OF valid mode, of "[1, 10, 10, 3, 10]"] by simp
qed

lemma ceil_div_Suc: "0 < k \<Longrightarrow> (Suc m + k - 1) div k = Suc (m div k)"
  by simp

lemma Suc_minus_div_mult: "Suc m - m div k * k = Suc (m mod k)"
  by (metis Suc_diff_le div_times_less_eq_dividend minus_div_mult_eq_mod)

lemma Suc_mod_zero: "0 < k \<Longrightarrow> Suc m mod k = 0 \<Longrightarrow> Suc (m mod k) = k"
  by (simp add: mod_Suc split: if_splits)

lemma Suc_mod_nonzero:
  "0 < k \<Longrightarrow> Suc m mod k \<noteq> 0 \<Longrightarrow> Suc m - k * (Suc m div k) = Suc (m mod k)"
  by (simp add: minus_mult_div_eq_mod mod_Suc split: if_splits)

text \<open>
  Claim C7. For a buffer of length \<open>L \<ge> 1\<close> and a byte count \<open>k \<ge> 1\<close>, \<open>splitByBytes\<close>
  returns \<open>ceil(L / k)\<close> pieces; every piece but the last has length \<open>k\<close>; the last has
  length \<open>k\<close> when \<open>k\<close> divides \<open>L\<close> and \<open>L - k * floor(L / k)\<close> otherwise, and is never
  empty.
\<close>

theorem splitByBytes_piece_lengths:
  assumes "1 \<le> length buffer" and "1 \<le> k"
  shows "\<exists>pieces. splitByBytes buffer k = Some pieces
     \<and> length pieces = (length buffer + k - 1) div k
     \<and> (\<forall>i<length pieces. i + 1 < length pieces \<longrightarrow> length (pieces ! i) = k)
     \<and> length (last pieces) = (if length buffer mod k = 0 then k
                                else length buffer - k * (length buffer div k))
     \<and> length (last pieces) \<noteq> 0"
proof -
  let ?ps = "chunks k buffer"
  have k: "0 < k" using assms(2) by linarith
  obtain m where m: "length buffer = Suc m"
    using assms(1) by (cases buffer) auto
  have n: "(length buffer + k - 1) div k = Suc (m div k)"
    unfolding m using k by (rule ceil_div_Suc)
  have len: "length ?ps = Suc (m div k)"
    using length_chunks [OF k, of buffer] n by (simp only:)
  have nth: "length (?ps ! i) = min k (Suc m - i * k)" if "i < Suc (m div k)" for i
    using nth_chunks [OF k, of i buffer] that len m by simp
  have inner: "length (?ps ! i) = k" if "i + 1 < Suc (m div k)" for i
  proof -
    have "i + 1 \<le> m div k" using that by simp
    then have "(i + 1) * k \<le> m div k * k" by (rule mult_le_mono1)
    also have "\<dots> \<le> m" by simp
    finally have "k \<le> Suc m - i * k" by simp
    moreover have "i < Suc (m div k)" using that by simp
    ultimately show ?thesis using nth [of i] by simp
  qed
  have "?ps \<noteq> []" using len by auto
  then have "last ?ps = ?ps ! (m div k)"
    using len by (simp add: last_conv_nth)
  then have "length (last ?ps) = min k (Suc m - m div k * k)"
    using nth [of "m div k"] by simp
  also have "\<dots> = Suc (m mod k)"
    using k by (simp add: Suc_minus_div_mult Suc_leI)
  finally have last_len: "length (last ?ps) = Suc (m mod k)" .
  have last_val: "Suc (m mod k) = (if length buffer mod k = 0 then k
      else length buffer - k * (length buffer div k))"
    unfolding m using k by (simp add: Suc_mod_zero Suc_mod_nonzero)
  have last_nz: "length (last ?ps) \<noteq> 0"
    unfolding last_len by simp
  have last_eq: "length (last ?ps) = (if length buffer mod k = 0 then k
      else length buffer - k * (length buffer div k))"
    using last_len last_val by (simp only:)
  show ?thesis
    using splitByBytes_chunks [OF k, of buffer] len n inner last_eq last_nz
    by (intro exI [of _ ?ps]) (simp del: length_0_conv length_greater_0_conv)
qed

theorem splitByBytes_piece_lengths_witness:
  "1 \<le> length [1, 2, 3, 4, 5 :: byte] \<and> 1 \<le> (2 :: nat)
   \<and> (\<exists>pieces. splitByBytes [1, 2, 3, 4, 5] 2 = Some pieces
     \<and> length pieces = (length [1, 2, 3, 4, 5 :: byte] + 2 - 1) div 2
     \<and> (\<forall>i<length pieces. i + 1 < length pieces \<longrightarrow> length (pieces ! i) = 2)
     \<and> length (last pieces) = (if length [1, 2, 3, 4, 5 :: byte] mod 2 = 0 then 2
                                else length  [1, 2, 3, 4, 5 :: byte] - 2 * (length  [1, 2, 3, 4, 5 :: byte] div 2))
     \<and> length (last pieces) \<noteq> 0)"
  using splitByBytes_piece_lengths [of "[1, 2, 3, 4, 5]" 2] by simp

text \<open>
  Claim C10. \<open>checkOptions\<close> does not change the object it is given, whether it returns
  or throws: the object at the caller's address, and every other object that was in the
  store before the call, is the same after it, and the object returned is a new one, at
  an address that was not in use.
\<close>

theorem checkOptions_leaves_input:
  assumes "checkOptions h (ObjRef r) = (h', res)" and "r < length h"
  shows "h' ! r = h ! r \<and> read_raw h' r = read_raw h r \<and> take (length h) h' = h
       \<and> (\<forall>a. res = Inr a \<longrightarrow> a = length h \<and> a \<noteq> r)"
proof -
  from checkOptions_frame [OF assms(1)]
  have len: "length h' = Suc (length h)" and same: "\<forall>x<length h. h' ! x = h ! x"
    and fresh: "\<forall>a. res = Inr a \<longrightarrow> a = length h"
    by simp_all
  have "take (length h) h' = h"
    using len same by (simp add: list_eq_iff_nth_eq)
  moreover have "h' ! r = h ! r" using same assms(2) by simp
  moreover from this have "read_raw h' r = read_raw h r" by (simp add: read_raw_def)
  ultimately show ?thesis using fresh assms(2) by auto
qed

theorem checkOptions_leaves_input_witness:
  "checkOptions [Raw (no_options\<lparr>raw_bytes := Value (JNum (Fin 1024)), raw_prefix := Value ''out.''\<rparr>)]
       (ObjRef 0)
     = ([Raw (no_options\<lparr>raw_bytes := Value (JNum (Fin 1024)), raw_prefix := Value ''out.''\<rparr>),
         Cfg (empty_config\<lparr>bytes := Some 1024, prefix := Some ''out.'',
                additional_suffix := Some []\<rparr>)], Inr 1)
   \<and> (0 :: nat) < length [Raw (no_options\<lparr>raw_bytes := Value (JNum (Fin 1024)),
                                   raw_prefix := Value ''out.''\<rparr>)]
   \<and> [Raw (no_options\<lparr>raw_bytes := Value (JNum (Fin 1024)), raw_prefix := Value ''out.''\<rparr>),
       Cfg (empty_config\<lparr>bytes := Some 1024, prefix := Some ''out.'',
              additional_suffix := Some []\<rparr>)] ! 0
     = [Raw (no_options\<lparr>raw_bytes := Value (JNum (Fin 1024)), raw_prefix := Value ''out.''\<rparr>)] ! 0
   \<and> take 1 [Raw (no_options\<lparr>raw_bytes := Value (JNum (Fin 1024)), raw_prefix := Value ''out.''\<rparr>),
             Cfg (empty_config\<lparr>bytes := Some 1024, prefix := Some ''out.'',
                    additional_suffix := Some []\<rparr>)]
     = [Raw (no_options\<lparr>raw_bytes := Value (JNum (Fin 1024)), raw_prefix := Value ''out.''\<rparr>)]"
proof -
  have valid: "checkOptions
       [Raw (no_options\<lparr>raw_bytes := Value (JNum (Fin 1024)), raw_prefix := Value ''out.''\<rparr>)]
       (ObjRef 0)
     = ([Raw (no_options\<lparr>raw_bytes := Value (JNum (Fin 1024)), raw_prefix := Value ''out.''\<rparr>),
         Cfg (empty_config\<lparr>bytes := Some 1024, prefix := Some ''out.'',
                additional_suffix := Some []\<rparr>)], Inr 1)"
    by code_simp
  have addr: "(0 :: nat) < length [Raw (no_options\<lparr>raw_bytes := Value (JNum (Fin 1024)),
                                   raw_prefix := Value ''out.''\<rparr>)]"
    by simp
  show ?thesis
    using valid checkOptions_leaves_input [OF valid addr] by simp
qed

section \<open>Evaluating calls on concrete inputs\<close>

lemmas value_defs = ToNumber_def isNaN_def isSafe_def js_le_def js_less_def Math_floor_def
  MAX_SAFE_INTEGER_def MIN_SAFE_INTEGER_def isDefined_def the_value_def the_nat_def

lemmas store_defs = alloc_def read_raw_def read_cfg_def assign_def empty_config_def
  no_options_def

lemmas validator_defs = checkOptions_def check_lines_def check_bytes_def check_prefix_def

lemmas splitter_defs = split_internal_def splitByLines_def splitByLines_loop.simps
  splitByBytes_def splitByBytes_loop.simps buffer_slice_def LF_def

lemmas filename_defs = createFilenames_def getSuffixLength_def getSuffixLength_loop.simps
  replicate_join_def slice_last_def string_of_def alphabet_def suffix_loop.simps
  decimal.simps

lemmas entry_defs = split_async_def write_callback_def

lemma replicate_numeral: "replicate (numeral k) x = x # replicate (pred_numeral k) x"
  by (simp add: numeral_eq_Suc)

section \<open>The suffix-length calculator\<close>

text \<open>
  Claim C5. The calculator is meant to return the least \<open>L\<close> with \<open>R^L \<ge> N\<close>. For
  \<open>N = 11\<close> and \<open>R = 10\<close> it returns 1, and \<open>10^1 < 11\<close>: eleven pieces do not fit one
  decimal digit.
\<close>

theorem getSuffixLength_eleven: "getSuffixLength 11 10 = Some 1 \<and> \<not> (11 \<le> (10 :: nat) ^ 1)"
  by (simp add: getSuffixLength_def getSuffixLength_loop.simps)

text \<open>
  What the loop computes: it counts the divisions by \<open>R\<close> that leave a non-zero quotient,
  so for \<open>N \<ge> 1\<close> the result \<open>L\<close> is the greatest with \<open>R^L \<le> N\<close>. That is the least \<open>L\<close>
  with \<open>R^L \<ge> N\<close> only when \<open>N\<close> is a power of \<open>R\<close>; \<open>N = 0\<close> and \<open>N = 1\<close> give 0.
\<close>

lemma getSuffixLength_small: "getSuffixLength 0 10 = Some 0 \<and> getSuffixLength 1 10 = Some 0
   \<and> getSuffixLength 0 26 = Some 0 \<and> getSuffixLength 1 26 = Some 0"
  by (simp add: getSuffixLength_def getSuffixLength_loop.simps)

lemma getSuffixLength_loop_floorlog:
  "2 \<le> R \<Longrightarrow> getSuffixLength_loop N R c = Some (c + (floorlog R N - 1))"
proof (induction N arbitrary: c rule: less_induct)
  case (less N)
  show ?case
  proof (cases "N div R = 0")
    case True
    then have "N < R" using less.prems by (simp add: div_eq_0_iff)
    then have "floorlog R N - 1 = 0"
      using less.prems by (subst compute_floorlog) (simp add: compute_floorlog)
    then show ?thesis
      using True less.prems by (subst getSuffixLength_loop.simps) simp
  next
    case False
    then have ge: "R \<le> N" using less.prems by (simp add: div_eq_0_iff)
    have lt: "N div R < N" using ge less.prems by simp
    have fl: "floorlog R N = floorlog R (N div R) + 1"
      using ge less.prems by (subst compute_floorlog) simp
    have pos: "0 < floorlog R (N div R)"
      using False less.prems by (subst compute_floorlog) simp
    have "getSuffixLength_loop N R c = getSuffixLength_loop (N div R) R (c + 1)"
      using False less.prems by (subst getSuffixLength_loop.simps) simp
    also have "\<dots> = Some (c + 1 + (floorlog R (N div R) - 1))"
      using less.IH [OF lt less.prems] .
    finally show ?thesis using fl pos by simp
  qed
qed

lemma getSuffixLength_floor_log:
  assumes "2 \<le> R" and "0 < N"
  shows "\<exists>L. getSuffixLength N R = Some L \<and> R ^ L \<le> N \<and> N < R ^ (L + 1)"
proof -
  define L where "L = floorlog R N - 1"
  have "0 < floorlog R N" using assms by (simp add: floorlog_def)
  then have fl: "floorlog R N = L + 1" by (simp add: L_def)
  have "getSuffixLength N R = Some L"
    using getSuffixLength_loop_floorlog [OF assms(1), of N 0]
    by (simp add: getSuffixLength_def L_def)
  moreover have "R ^ L \<le> N \<and> N < R ^ (L + 1)"
    using floorlog_bounds [where b = R and x = N] assms unfolding fl by simp
  ultimately show ?thesis by blast
qed

section \<open>The filenames of a call\<close>

text \<open>
  Claim C2. The filenames of a call are meant to be pairwise distinct. A buffer of 27
  bytes split with \<open>{bytes: 1, prefix: 'x', suffix_length: 1}\<close> passes the validator and
  the filename generator (\<open>getSuffixLength(27, 26)\<close> is 1), and pieces 0 and 26 are both
  written to \<open>xa\<close>.
\<close>

theorem filenames_collide:
  "map_option (\<lambda>out. (length (writes_issued out), fst (writes_issued out ! 0),
                      fst (writes_issued out ! 26), distinct (map fst (writes_issued out))))
     (split_async
        [Raw (no_options\<lparr>raw_bytes := Value (JNum (Fin 1)), raw_prefix := Value ''x'',
                raw_suffix_length := Value (JNum (Fin 1))\<rparr>)]
        (replicate 27 0) (ObjRef 0) [])
   = Some (27, ''xa'', ''xa'', False)"
  by (simp add: value_defs store_defs validator_defs splitter_defs filename_defs entry_defs
        Let_def upt_rec)

section \<open>The write callbacks: lemmas\<close>

lemma run_callbacks_errored:
  "errored st \<Longrightarrow> \<forall>n \<in> set (run_callbacks sp rs st). \<not> is_Success n"
proof (induction rs arbitrary: st)
  case Nil
  show ?case by simp
next
  case (Cons r rs)
  show ?case
  proof (cases r)
    case None
    with Cons.prems have "write_callback sp r st = (st\<lparr>done_count := done_count st + 1\<rparr>, [])"
      by (simp add: write_callback_def Let_def)
    moreover have "errored (st\<lparr>done_count := done_count st + 1\<rparr>)"
      using Cons.prems by simp
    then have "\<forall>n \<in> set (run_callbacks sp rs (st\<lparr>done_count := done_count st + 1\<rparr>)).
        \<not> is_Success n"
      by (rule Cons.IH)
    ultimately show ?thesis by simp
  next
    case (Some e)
    then have "write_callback sp r st = (st\<lparr>errored := True\<rparr>, [Failure e])"
      by (simp add: write_callback_def)
    moreover have "errored (st\<lparr>errored := True\<rparr>)" by simp
    then have "\<forall>n \<in> set (run_callbacks sp rs (st\<lparr>errored := True\<rparr>)). \<not> is_Success n"
      by (rule Cons.IH)
    ultimately show ?thesis by simp
  qed
qed

lemma run_callbacks_few_successes:
  "done_count st + length (filter (\<lambda>r. r = None) rs) < length sp \<or> length sp \<le> done_count st
   \<Longrightarrow> \<forall>n \<in> set (run_callbacks sp rs st). \<not> is_Success n"
proof (induction rs arbitrary: st)
  case Nil
  show ?case by simp
next
  case (Cons r rs)
  show ?case
  proof (cases r)
    case None
    let ?st = "st\<lparr>done_count := done_count st + 1\<rparr>"
    from Cons.prems None have ne: "done_count ?st \<noteq> length sp" by auto
    then have "write_callback sp r st = (?st, [])"
      using None by (simp add: write_callback_def Let_def)
    moreover have "done_count ?st + length (filter (\<lambda>r. r = None) rs) < length sp
        \<or> length sp \<le> done_count ?st"
      using Cons.prems None by auto
    ultimately show ?thesis using Cons.IH [of ?st] by simp
  next
    case (Some e)
    then have "write_callback sp r st = (st\<lparr>errored := True\<rparr>, [Failure e])"
      by (simp add: write_callback_def)
    then show ?thesis
      using run_callbacks_errored [of "st\<lparr>errored := True\<rparr>" sp rs] by simp
  qed
qed

lemma run_callbacks_one_success:
  "length (filter is_Success (run_callbacks sp rs st)) \<le> 1"
proof (induction rs arbitrary: st)
  case Nil
  show ?case by simp
next
  case (Cons r rs)
  show ?case
  proof (cases r)
    case None
    let ?st = "st\<lparr>done_count := done_count st + 1\<rparr>"
    show ?thesis
    proof (cases "\<not> errored st \<and> done_count st + 1 = length sp")
      case True
      then have "write_callback sp r st = (?st, [Success sp])"
        using None by (simp add: write_callback_def Let_def)
      moreover have "\<forall>n \<in> set (run_callbacks sp rs ?st). \<not> is_Success n"
        using True by (intro run_callbacks_few_successes) simp
      then have "filter is_Success (run_callbacks sp rs ?st) = []"
        by (simp add: filter_empty_conv)
      ultimately show ?thesis by simp
    next
      case False
      then have "write_callback sp r st = (?st, [])"
        using None by (auto simp: write_callback_def Let_def)
      then show ?thesis using Cons.IH [of ?st] by simp
    qed
  next
    case (Some e)
    then have "write_callback sp r st = (st\<lparr>errored := True\<rparr>, [Failure e])"
      by (simp add: write_callback_def)
    moreover have "filter is_Success (run_callbacks sp rs (st\<lparr>errored := True\<rparr>)) = []"
      using run_callbacks_errored [of "st\<lparr>errored := True\<rparr>" sp rs]
      by (simp add: filter_empty_conv)
    ultimately show ?thesis by simp
  qed
qed

lemma run_callbacks_failures:
  "filter is_Failure (run_callbacks sp rs st)
     = map (\<lambda>r. Failure (the r)) (filter (\<lambda>r. r \<noteq> None) rs)"
proof (induction rs arbitrary: st)
  case Nil
  show ?case by simp
next
  case (Cons r rs)
  show ?case
  proof (cases r)
    case None
    then obtain ns where "write_callback sp r st = (st\<lparr>done_count := done_count st + 1\<rparr>, ns)"
      and "filter is_Failure ns = []"
      by (auto simp: write_callback_def Let_def)
    then show ?thesis using Cons.IH None by simp
  next
    case (Some e)
    then have "write_callback sp r st = (st\<lparr>errored := True\<rparr>, [Failure e])"
      by (simp add: write_callback_def)
    then show ?thesis using Cons.IH Some by simp
  qed
qed

lemma run_callbacks_exclusive:
  assumes "length rs \<le> length sp" and "\<exists>n \<in> set (run_callbacks sp rs \<lparr>done_count = 0, errored = False\<rparr>). is_Failure n"
  shows "\<forall>n \<in> set (run_callbacks sp rs \<lparr>done_count = 0, errored = False\<rparr>). \<not> is_Success n"
proof -
  let ?ns = "run_callbacks sp rs \<lparr>done_count = 0, errored = False\<rparr>"
  from assms(2) have "filter is_Failure ?ns \<noteq> []"
    by (simp add: filter_empty_conv)
  then have "filter (\<lambda>r. r \<noteq> None) rs \<noteq> []"
    by (simp add: run_callbacks_failures)
  then obtain r where "r \<in> set rs" "r \<noteq> None"
    by (auto simp: filter_empty_conv)
  then have "length (filter (\<lambda>r. r = None) rs) < length rs"
    by (intro length_filter_less) auto
  with assms(1) show ?thesis
    by (intro run_callbacks_few_successes) simp
qed

lemma createFilenames_length:
  "createFilenames sz a h = Some (h', Inr filenames) \<Longrightarrow> length filenames = sz"
  by (auto simp: createFilenames_def Let_def split: if_splits option.splits sum.splits)

lemma createFilenames_effect:
  assumes "createFilenames sz a h = Some (h', res)" and "a < length h"
  shows "length h' = length h \<and> (\<forall>x. x \<noteq> a \<longrightarrow> h' ! x = h ! x)
       \<and> read_cfg h' a = (read_cfg h a)\<lparr>suffix_length := suffix_length (read_cfg h' a)\<rparr>
       \<and> (suffix_length (read_cfg h a) \<noteq> None \<longrightarrow> h' = h)"
  using assms
  by (auto simp: createFilenames_def Let_def length_assign nth_assign_other read_cfg_assign
           split: if_splits option.splits sum.splits)

lemma split_async_cases:
  assumes "split_async h buffer arg results = Some out"
  obtains
    (invalid) h1 err where "checkOptions h arg = (h1, Inl err)"
      "out = \<lparr>store_after = h1, writes_issued = [], notifications = [Failure err]\<rparr>"
  | (no_prefix) h1 a sp where "checkOptions h arg = (h1, Inr a)"
      "split_internal buffer (read_cfg h1 a) = Some sp" "prefix (read_cfg h1 a) = None"
      "out = \<lparr>store_after = h1, writes_issued = [], notifications = [Success sp]\<rparr>"
  | (exhausted) h1 a sp h2 err where "checkOptions h arg = (h1, Inr a)"
      "split_internal buffer (read_cfg h1 a) = Some sp" "prefix (read_cfg h1 a) \<noteq> None"
      "createFilenames (length sp) a h1 = Some (h2, Inl err)"
      "out = \<lparr>store_after = h2, writes_issued = [], notifications = [Failure err]\<rparr>"
  | (writes) h1 a sp h2 filenames where "checkOptions h arg = (h1, Inr a)"
      "split_internal buffer (read_cfg h1 a) = Some sp" "prefix (read_cfg h1 a) \<noteq> None"
      "createFilenames (length sp) a h1 = Some (h2, Inr filenames)"
      "out = \<lparr>store_after = h2, writes_issued = zip filenames sp,
               notifications = run_callbacks sp (take (length sp) results)
                 \<lparr>done_count = 0, errored = False\<rparr>\<rparr>"
  using assms unfolding split_async_def
  by (auto split: prod.splits sum.splits option.splits if_splits)

section \<open>The notifications of a call\<close>

text \<open>
  Claim C3. With a prefix and an empty buffer the caller is meant to get one success
  notification carrying the empty sequence. \<open>split\<close> issues no write, and the callback is
  only ever called from a write's callback: whatever the file system does, the call
  notifies nobody.
\<close>

theorem empty_buffer_no_notification:
  "map_option (\<lambda>out. (writes_issued out, notifications out))
     (split_async [Raw (no_options\<lparr>raw_lines := Value (JNum (Fin 1)), raw_prefix := Value ''x''\<rparr>)]
        [] (ObjRef 0) results)
   = Some ([], [])"
  by (simp add: value_defs store_defs validator_defs splitter_defs filename_defs entry_defs)

text \<open>
  Claim C4, as stated, fails: when two writes fail, the callback is called with an
  error twice.
\<close>

theorem two_failed_writes_two_notifications:
  "map_option notifications
     (split_async [Raw (no_options\<lparr>raw_lines := Value (JNum (Fin 1)), raw_prefix := Value ''x''\<rparr>)]
        [1, 10, 2, 10] (ObjRef 0) [Some (WriteError ''a''), Some (WriteError ''b'')])
   = Some [Failure (WriteError ''a''), Failure (WriteError ''b'')]
   \<and> \<not> length [Failure (WriteError ''a''), Failure (WriteError ''b'')] \<le> 1"
  by (simp add: value_defs store_defs validator_defs splitter_defs filename_defs entry_defs)

text \<open>
  Claim C4, amended. In every call that returns, at most one success notification
  reaches the caller; a call that delivers an error notification delivers no success
  notification, before or after it; and when writes were issued, every write that
  completes with an error delivers its own error notification, in completion order.
\<close>

theorem notifications_of_a_call:
  assumes "split_async h buffer arg results = Some out"
  shows "length (filter is_Success (notifications out)) \<le> 1
       \<and> ((\<exists>n \<in> set (notifications out). is_Failure n)
            \<longrightarrow> (\<forall>n \<in> set (notifications out). \<not> is_Success n))
       \<and> (writes_issued out \<noteq> [] \<longrightarrow>
            filter is_Failure (notifications out)
              = map (\<lambda>r. Failure (the r))
                  (filter (\<lambda>r. r \<noteq> None) (take (length (writes_issued out)) results)))"
  using assms
proof (cases rule: split_async_cases)
  case (invalid h1 err)
  then show ?thesis by simp
next
  case (no_prefix h1 a sp)
  then show ?thesis by simp
next
  case (exhausted h1 a sp h2 err)
  then show ?thesis by simp
next
  case (writes h1 a sp h2 filenames)
  let ?rs = "take (length sp) results"
  let ?ns = "run_callbacks sp ?rs \<lparr>done_count = 0, errored = False\<rparr>"
  have len: "length (zip filenames sp) = length sp"
    using createFilenames_length [OF writes(4)] by simp
  have one: "length (filter is_Success ?ns) \<le> 1"
    by (rule run_callbacks_one_success)
  have excl: "(\<exists>n \<in> set ?ns. is_Failure n) \<longrightarrow> (\<forall>n \<in> set ?ns. \<not> is_Success n)"
    using run_callbacks_exclusive [of ?rs sp] by simp
  have fails: "filter is_Failure ?ns
      = map (\<lambda>r. Failure (the r)) (filter (\<lambda>r. r \<noteq> None) ?rs)"
    by (rule run_callbacks_failures)
  show ?thesis
    unfolding writes(5) using one excl fails len by simp
qed

theorem notifications_of_a_call_witness:
  "split_async [Raw (no_options\<lparr>raw_lines := Value (JNum (Fin 1)), raw_prefix := Value ''x''\<rparr>)]
      [1, 10, 2, 10, 3] (ObjRef 0) [None, Some (WriteError ''b''), None]
   = Some \<lparr>store_after =
             [Raw (no_options\<lparr>raw_lines := Value (JNum (Fin 1)), raw_prefix := Value ''x''\<rparr>),
              Cfg (empty_config\<lparr>lines := Some 1, prefix := Some ''x'', suffix_length := Some 2,
                     additional_suffix := Some []\<rparr>)],
           writes_issued = [(''xaa'', [1, 10]), (''xab'', [2, 10]), (''xac'', [3])],
           notifications = [Failure (WriteError ''b'')]\<rparr>
   \<and> length (filter is_Success [Failure (WriteError ''b'')]) \<le> 1
   \<and> filter is_Failure [Failure (WriteError ''b'')] = [Failure (WriteError ''b'')]"
proof -
  have call: "split_async
      [Raw (no_options\<lparr>raw_lines := Value (JNum (Fin 1)), raw_prefix := Value ''x''\<rparr>)]
      [1, 10, 2, 10, 3] (ObjRef 0) [None, Some (WriteError ''b''), None]
   = Some \<lparr>store_after =
             [Raw (no_options\<lparr>raw_lines := Value (JNum (Fin 1)), raw_prefix := Value ''x''\<rparr>),
              Cfg (empty_config\<lparr>lines := Some 1, prefix := Some ''x'', suffix_length := Some 2,
                     additional_suffix := Some []\<rparr>)],
           writes_issued = [(''xaa'', [1, 10]), (''xab'', [2, 10]), (''xac'', [3])],
           notifications = [Failure (WriteError ''b'')]\<rparr>"
    by (simp add: value_defs store_defs validator_defs splitter_defs filename_defs entry_defs
          Let_def upt_rec replicate_numeral)
  show ?thesis
    using call notifications_of_a_call [OF call] by simp
qed

section \<open>The configuration record after validation\<close>

text \<open>
  Claim C8, as stated, fails: the validator leaves \<open>suffix_length\<close> unset when the
  caller gives none, and \<open>createFilenames\<close> assigns it on the validator's object.
\<close>

theorem suffix_length_assigned:
  "suffix_length (read_cfg (fst (checkOptions
       [Raw (no_options\<lparr>raw_lines := Value (JNum (Fin 1)), raw_prefix := Value ''x''\<rparr>)]
       (ObjRef 0))) 1) = None
   \<and> map_option (\<lambda>out. suffix_length (read_cfg (store_after out) 1))
       (split_async [Raw (no_options\<lparr>raw_lines := Value (JNum (Fin 1)), raw_prefix := Value ''x''\<rparr>)]
          [1, 10, 2, 10] (ObjRef 0) [None, None])
     = Some (Some 2)"
  by (simp add: value_defs store_defs validator_defs splitter_defs filename_defs entry_defs)

text \<open>
  Claim C8, amended. After the validator has returned the configuration record, no
  later stage of the call changes \<open>lines\<close>, \<open>bytes\<close>, \<open>line_bytes\<close>, \<open>prefix\<close>,
  \<open>numeric_suffixes\<close> or \<open>additional_suffix\<close>, and none changes a \<open>suffix_length\<close> the
  validator has set; the objects that were in the store before the call, the caller's
  options among them, are unchanged as well.
\<close>

theorem configuration_after_validation:
  assumes "checkOptions h arg = (h1, Inr options)"
    and "split_async h buffer arg results = Some out"
  shows "read_cfg (store_after out) options
           = (read_cfg h1 options)
               \<lparr>suffix_length := suffix_length (read_cfg (store_after out) options)\<rparr>
       \<and> (suffix_length (read_cfg h1 options) \<noteq> None
            \<longrightarrow> read_cfg (store_after out) options = read_cfg h1 options)
       \<and> (\<forall>x<length h. store_after out ! x = h ! x)"
proof -
  from checkOptions_frame [OF assms(1)]
  have len: "length h1 = Suc (length h)" and same: "\<forall>x<length h. h1 ! x = h ! x"
    and fresh: "options = length h"
    by simp_all
  then have addr: "options < length h1" by simp
  have effect: "read_cfg h2 options
           = (read_cfg h1 options)\<lparr>suffix_length := suffix_length (read_cfg h2 options)\<rparr>
       \<and> (suffix_length (read_cfg h1 options) \<noteq> None
            \<longrightarrow> read_cfg h2 options = read_cfg h1 options)
       \<and> (\<forall>x<length h. h2 ! x = h ! x)"
    if "createFilenames sz options h1 = Some (h2, res)" for sz h2 res
    using createFilenames_effect [OF that addr] same fresh by auto
  from assms(2) show ?thesis
  proof (cases rule: split_async_cases)
    case (invalid h1' err)
    with assms(1) show ?thesis by simp
  next
    case (no_prefix h1' a sp)
    with assms(1) same show ?thesis by simp
  next
    case (exhausted h1' a sp h2 err)
    with assms(1) effect [of "length sp" h2 "Inl err"] show ?thesis by simp
  next
    case (writes h1' a sp h2 filenames)
    with assms(1) effect [of "length sp" h2 "Inr filenames"] show ?thesis by simp
  qed
qed

theorem configuration_after_validation_witness:
  "checkOptions
      [Raw (no_options\<lparr>raw_lines := Value (JNum (Fin 1)), raw_prefix := Value ''x''\<rparr>)]
      (ObjRef 0)
   = ([Raw (no_options\<lparr>raw_lines := Value (JNum (Fin 1)), raw_prefix := Value ''x''\<rparr>),
       Cfg (empty_config\<lparr>lines := Some 1, prefix := Some ''x'',
              additional_suffix := Some []\<rparr>)], Inr 1)
   \<and> split_async
        [Raw (no_options\<lparr>raw_lines := Value (JNum (Fin 1)), raw_prefix := Value ''x''\<rparr>)]
        [1, 10, 2, 10, 3] (ObjRef 0) [None, None, None]
     = Some \<lparr>store_after =
             [Raw (no_options\<lparr>raw_lines := Value (JNum (Fin 1)), raw_prefix := Value ''x''\<rparr>),
              Cfg (empty_config\<lparr>lines := Some 1, prefix := Some ''x'', suffix_length := Some 2,
                     additional_suffix := Some []\<rparr>)],
           writes_issued = [(''xaa'', [1, 10]), (''xab'', [2, 10]), (''xac'', [3])],
           notifications = [Success [[1, 10], [2, 10], [3]]]\<rparr>
   \<and> empty_config\<lparr>lines := Some 1, prefix := Some ''x'', suffix_length := Some 2,
                     additional_suffix := Some []\<rparr>
     = (empty_config\<lparr>lines := Some 1, prefix := Some ''x'', additional_suffix := Some []\<rparr>)
         \<lparr>suffix_length := Some 2\<rparr>"
proof -
  have valid: "checkOptions
      [Raw (no_options\<lparr>raw_lines := Value (JNum (Fin 1)), raw_prefix := Value ''x''\<rparr>)]
      (ObjRef 0)
   = ([Raw (no_options\<lparr>raw_lines := Value (JNum (Fin 1)), raw_prefix := Value ''x''\<rparr>),
       Cfg (empty_config\<lparr>lines := Some 1, prefix := Some ''x'',
              additional_suffix := Some []\<rparr>)], Inr 1)"
    by (simp add: value_defs store_defs validator_defs Let_def)
  have call: "split_async
        [Raw (no_options\<lparr>raw_lines := Value (JNum (Fin 1)), raw_prefix := Value ''x''\<rparr>)]
        [1, 10, 2, 10, 3] (ObjRef 0) [None, None, None]
     = Some \<lparr>store_after =
             [Raw (no_options\<lparr>raw_lines := Value (JNum (Fin 1)), raw_prefix := Value ''x''\<rparr>),
              Cfg (empty_config\<lparr>lines := Some 1, prefix := Some ''x'', suffix_length := Some 2,
                     additional_suffix := Some []\<rparr>)],
           writes_issued = [(''xaa'', [1, 10]), (''xab'', [2, 10]), (''xac'', [3])],
           notifications = [Success [[1, 10], [2, 10], [3]]]\<rparr>"
    by (simp add: value_defs store_defs validator_defs splitter_defs filename_defs entry_defs
          Let_def upt_rec replicate_numeral)
  show ?thesis
    using valid call configuration_after_validation [OF valid call]
    by (simp add: read_cfg_def)
qed

section \<open>Numbers from strings: lemmas\<close>

lemma round_half_even_of_int: "round_half_even (of_int k) = k"
  by (simp add: round_half_even_def)

lemma floor_log2_of_nat:
  assumes "0 < n"
  shows "floor_log2 (of_nat n) = bitlen (int n) - 1"
proof -
  have q: "quotient_of (of_nat n :: rat) = (int n, 1)"
    by (metis of_int_of_nat_eq quotient_of_rat_of_int)
  have b1: "bitlen 1 = 1" by (simp add: bitlen_alt_def)
  have ge: "1 \<le> bitlen (int n)" using assms by (simp add: bitlen_alt_def)
  have "(2 :: int) ^ nat (bitlen (int n) - 1) \<le> int n"
    using bitlen_bounds [of "int n"] assms by simp
  then have "(of_int ((2 :: int) ^ nat (bitlen (int n) - 1)) :: rat) \<le> of_int (int n)"
    by (simp only: of_int_le_iff)
  then have "two_powi (bitlen (int n) - 1) \<le> of_nat n"
    using ge by (simp add: two_powi_def)
  then show ?thesis
    by (simp add: floor_log2_def q b1)
qed

lemma roundToDouble_of_nat:
  assumes "n < 2 ^ 53"
  shows "roundToDouble (of_nat n) = Fin (of_nat n)"
proof (cases "n = 0")
  case True
  then show ?thesis by (simp add: roundToDouble_def)
next
  case False
  then have pos: "0 < n" by simp
  define e where "e = bitlen (int n) - 1"
  define s where "s = nat (52 - e)"
  have e0: "0 \<le> e" using pos by (simp add: e_def bitlen_alt_def)
  have "int n < 2 ^ nat 53" using assms
    by (metis nat_numeral of_nat_less_numeral_power_cancel_iff)
  then have "bitlen (int n) \<le> 53"
    by (simp add: bitlen_le_iff_power)
  then have e52: "e \<le> 52" by (simp add: e_def)
  have fl: "floor_log2 (of_nat n) = e"
    using floor_log2_of_nat [OF pos] by (simp add: e_def)
  have ulp: "two_powi (e - 52) = 1 / 2 ^ s"
    using e52 by (simp add: two_powi_def s_def)
  have quot: "(of_nat n :: rat) / two_powi (e - 52) = of_int (int n * 2 ^ s)"
    unfolding ulp by simp
  have undo: "(of_int (int n * 2 ^ s) :: rat) * two_powi (e - 52) = of_nat n"
    unfolding ulp by simp
  have r: "(of_int (round_half_even ((of_nat n :: rat) / two_powi (e - 52))) :: rat)
             * two_powi (e - 52) = of_nat n"
    by (simp only: quot round_half_even_of_int undo)
  have small: "\<not> (2 :: rat) ^ 1024 \<le> of_nat n"
  proof -
    have "(of_nat n :: rat) < of_nat (2 ^ 53)" using assms by (simp only: of_nat_less_iff)
    also have "\<dots> \<le> 2 ^ 1024" by simp
    finally show ?thesis by simp
  qed
  have m: "max e (- 1022) = e" using e0 by simp
  have abs: "\<bar>of_nat n :: rat\<bar> = of_nat n" by simp
  have nz: "(of_nat n :: rat) \<noteq> 0" and gt: "0 < (of_nat n :: rat)" using pos by simp_all
  show ?thesis
    unfolding roundToDouble_def Let_def abs fl m r
    using nz gt small by (simp only: if_False if_True)
qed

lemma isDigit_not_special:
  assumes "isDigit c"
  shows "\<not> isWhiteSpace c" and "c \<notin> set ''xXoObBeE.+-I''" and "c \<notin> set ''kKmM''"
  using assms by (auto simp: isDigit_def isWhiteSpace_def)

lemma spec_units_cases:
  assumes "(u, m) \<in> set spec_units"
  shows "u \<noteq> []" and "\<not> isDigit (hd u)" and "\<not> isWhiteSpace (last u)"
    and "hd u \<in> set ''kKmM''" and "unit_of u = Some m"
    and "map to_upper u \<in> set [''KB'', ''MB'', ''K'', ''M'']"
  using assms
  by (auto simp: spec_units_def isDigit_def isWhiteSpace_def unit_of_def to_upper_def)

lemma dropWhile_hd: "s \<noteq> [] \<Longrightarrow> \<not> P (hd s) \<Longrightarrow> dropWhile P s = s"
  by (cases s) simp_all

lemma takeWhile_hd: "s = [] \<or> \<not> P (hd s) \<Longrightarrow> takeWhile P s = []"
  by (cases s) auto

lemma trim_id:
  assumes "s \<noteq> []" and "\<not> isWhiteSpace (hd s)" and "\<not> isWhiteSpace (last s)"
  shows "trim s = s"
proof -
  have "dropWhile isWhiteSpace s = s" using assms(1,2) by (rule dropWhile_hd)
  moreover have "dropWhile isWhiteSpace (rev s) = rev s"
    using assms(1,3) by (intro dropWhile_hd) (simp_all add: hd_rev)
  ultimately show ?thesis by (simp add: trim_def)
qed

lemma digits_split:
  assumes "list_all isDigit d" and "u = [] \<or> \<not> isDigit (hd u)"
  shows "takeWhile isDigit (d @ u) = d" and "dropWhile isDigit (d @ u) = u"
proof -
  have all: "\<And>c. c \<in> set d \<Longrightarrow> isDigit c" using assms(1) by (simp add: list_all_iff)
  have "takeWhile isDigit u = []" using assms(2) by (rule takeWhile_hd)
  then show "takeWhile isDigit (d @ u) = d" using all by (simp add: takeWhile_append2)
  have "dropWhile isDigit u = u" using assms(2) by (cases u) auto
  then show "dropWhile isDigit (d @ u) = u" using all by (simp add: dropWhile_append2)
qed

lemma nonDecimalValue_None:
  assumes "2 \<le> length s \<longrightarrow> isDigit (s ! 1) \<or> s ! 1 \<in> set ''kKmM''"
  shows "nonDecimalValue s = None"
proof (cases "length s < 3 \<or> hd s \<noteq> CHR ''0''")
  case True
  then show ?thesis by (simp add: nonDecimalValue_def)
next
  case False
  then have "isDigit (s ! 1) \<or> s ! 1 \<in> set ''kKmM''" using assms by simp
  then have "s ! 1 \<notin> set ''xXoObB''"
    using isDigit_not_special(2) [of "s ! 1"] by auto
  then show ?thesis by (simp add: nonDecimalValue_def Let_def)
qed

lemma decimalValue_digits_then:
  assumes "d \<noteq> []" and "list_all isDigit d" and "u = [] \<or> hd u \<in> set ''kKmM''"
  shows "decimalValue (d @ u) = (if u = [] then Some (of_nat (digitsValue 10 d)) else None)"
proof -
  have nd: "u = [] \<or> \<not> isDigit (hd u)"
    using assms(3) isDigit_not_special(3) [of "hd u"] by auto
  have t: "takeWhile isDigit (d @ u) = d" and r: "dropWhile isDigit (d @ u) = u"
    using digits_split [OF assms(2) nd] by simp_all
  have dot: "(u \<noteq> [] \<and> hd u = CHR ''.'') = False" using assms(3) by auto
  have ex: "exponentPart u = (if u = [] then Some 0 else None)"
    using assms(3) by (auto simp: exponentPart_def)
  show ?thesis
    unfolding decimalValue_def t r Let_def dot
    by (simp add: ten_powi_def assms(1) ex)
qed

lemma StringToNumber_digits_then:
  assumes "d \<noteq> []" and "list_all isDigit d"
    and "u = [] \<or> (hd u \<in> set ''kKmM'' \<and> \<not> isWhiteSpace (last u))"
  shows "StringToNumber (d @ u)
           = (if u = [] then roundToDouble (of_nat (digitsValue 10 d)) else NaN)"
proof -
  let ?s = "d @ u"
  have all: "\<And>c. c \<in> set d \<Longrightarrow> isDigit c" using assms(2) by (simp add: list_all_iff)
  have hd: "hd ?s = hd d" and hdd: "isDigit (hd d)" using assms(1) all by simp_all
  have last: "\<not> isWhiteSpace (last ?s)"
  proof (cases "u = []")
    case True
    then have "last ?s = last d" by simp
    moreover have "isDigit (last d)" using assms(1) all by simp
    ultimately show ?thesis using isDigit_not_special(1) by simp
  next
    case False
    then show ?thesis using assms(3) by simp
  qed
  have trim: "trim ?s = ?s"
    using assms(1) hd hdd isDigit_not_special(1) [of "hd d"] last
    by (intro trim_id) simp_all
  have second: "2 \<le> length ?s \<longrightarrow> isDigit (?s ! 1) \<or> ?s ! 1 \<in> set ''kKmM''"
  proof
    assume len: "2 \<le> length ?s"
    show "isDigit (?s ! 1) \<or> ?s ! 1 \<in> set ''kKmM''"
    proof (cases "2 \<le> length d")
      case True
      then have "?s ! 1 = d ! 1" by (simp add: nth_append)
      moreover have "d ! 1 \<in> set d" using True by simp
      ultimately show ?thesis using all by simp
    next
      case False
      then have one: "length d = 1" using assms(1) by (cases d) (auto simp: not_le)
      then have "u \<noteq> []" using len by auto
      moreover have "?s ! 1 = hd u"
        using one \<open>u \<noteq> []\<close> by (simp add: nth_append hd_conv_nth)
      ultimately show ?thesis using assms(3) by simp
    qed
  qed
  have nondec: "nonDecimalValue ?s = None" using second by (rule nonDecimalValue_None)
  have sign: "\<not> (hd ?s = CHR ''+'' \<or> hd ?s = CHR ''-'')"
    using hd hdd isDigit_not_special(2) [of "hd d"] by auto
  have inf: "?s \<noteq> ''Infinity''"
  proof
    assume "?s = ''Infinity''"
    then have "hd ?s = CHR ''I''" by (simp only: list.sel)
    with hd hdd isDigit_not_special(2) [of "hd d"] show False by auto
  qed
  have dec: "decimalValue ?s = (if u = [] then Some (of_nat (digitsValue 10 d)) else None)"
    using assms by (intro decimalValue_digits_then) auto
  have "StrDecimalLiteral ?s = (if u = [] then roundToDouble (of_nat (digitsValue 10 d)) else NaN)"
    unfolding StrDecimalLiteral_def Let_def using sign inf dec assms(1) by simp
  then show ?thesis
    unfolding StringToNumber_def Let_def trim nondec using assms(1) by simp
qed

lemma StringToNumber_digits:
  assumes "d \<noteq> []" and "list_all isDigit d"
  shows "StringToNumber d = roundToDouble (of_nat (digitsValue 10 d))"
  using StringToNumber_digits_then [OF assms, of "[]"] by simp

lemma StringToNumber_size:
  assumes "d \<noteq> []" and "list_all isDigit d" and "(u, m) \<in> set spec_units"
  shows "StringToNumber (d @ u) = NaN"
  using StringToNumber_digits_then [OF assms(1,2), of u] spec_units_cases [OF assms(3)]
  by simp

lemma size_regex_exec_size:
  assumes "d \<noteq> []" and "list_all isDigit d" and "(u, m) \<in> set spec_units"
  shows "size_regex_exec (d @ u) = Some (d, u)"
proof -
  have "takeWhile isDigit (d @ u) = d" and "dropWhile isDigit (d @ u) = u"
    using digits_split [OF assms(2), of u] spec_units_cases(2) [OF assms(3)] by simp_all
  then show ?thesis
    using assms(1) spec_units_cases(6) [OF assms(3)]
    by (simp add: size_regex_exec_def Let_def)
qed

section \<open>Size strings\<close>

lemma isSafe_of_nat: "n \<le> 9007199254740991 \<Longrightarrow> isSafe (Fin (of_nat n))"
proof -
  assume "n \<le> 9007199254740991"
  then have "(of_nat n :: rat) \<le> of_nat 9007199254740991" by (simp only: of_nat_le_iff)
  then show ?thesis
    by (auto simp add: isSafe_def js_le_def js_less_def MAX_SAFE_INTEGER_def
          MIN_SAFE_INTEGER_def)
qed

lemma the_nat_of_nat: "the_nat (Fin (of_nat n)) = n"
  by (simp add: the_nat_def)

lemma size_product:
  assumes "d \<noteq> []" and "list_all isDigit d" and "0 < m"
    and "digitsValue 10 d * m \<le> 9007199254740991"
  shows "js_times (StringToNumber d) (Fin (of_nat m)) = Fin (of_nat (digitsValue 10 d * m))"
proof -
  let ?v = "digitsValue 10 d"
  have "?v \<le> ?v * m" using assms(3) by simp
  then have "?v \<le> 9007199254740991" using assms(4) by (rule order_trans)
  then have "?v < 2 ^ 53" by simp
  then have "StringToNumber d = Fin (of_nat ?v)"
    using StringToNumber_digits [OF assms(1,2)] roundToDouble_of_nat by simp
  moreover have "?v * m < 2 ^ 53" using assms(4) by simp
  then have "roundToDouble (of_nat (?v * m)) = Fin (of_nat (?v * m))"
    by (rule roundToDouble_of_nat)
  ultimately show ?thesis
    by (simp add: js_times_def)
qed

lemma spec_units_pos: "(u, m) \<in> set spec_units \<Longrightarrow> 0 < m"
  by (auto simp: spec_units_def)

lemma read_raw_append: "a < length h \<Longrightarrow> read_raw (h @ k) a = read_raw h a"
  by (simp add: read_raw_def nth_append)

lemma assign_fresh: "assign (length h) f (h @ [Cfg c]) = h @ [Cfg (f c)]"
  by (simp add: assign_def read_cfg_def)

lemma check_bytes_size_ok:
  assumes "read_raw h0 a = size_options byBytes s" and "StringToNumber s = NaN"
    and "size_regex_exec s = Some (d, x)" and "unit_of x = Some m"
    and "js_times (StringToNumber d) (Fin (of_nat m)) = Fin (of_nat n)"
    and "isSafe (Fin (of_nat n))"
  shows "check_bytes byBytes a b h0
     = (assign b (\<lambda>c. if byBytes then c\<lparr>bytes := Some n\<rparr> else c\<lparr>line_bytes := Some n\<rparr>) h0,
        None)"
  using assms
  by (cases byBytes)
     (simp_all add: check_bytes_def size_options_def no_options_def the_value_def
        isNaN_def ToNumber_def size_string_def Let_def the_nat_of_nat)

lemma check_bytes_size_fail:
  assumes "read_raw h0 a = size_options byBytes s" and "StringToNumber s = NaN"
    and "size_regex_exec s = None"
  shows "check_bytes byBytes a b h0 = (h0, Some (Error ''Invalid number of bytes''))"
  using assms
  by (cases byBytes)
     (simp_all add: check_bytes_def size_options_def no_options_def the_value_def
        isNaN_def ToNumber_def size_string_def Let_def)

lemma checkOptions_size_options:
  assumes "a < length h" and "read_raw h a = size_options byBytes s"
  shows "checkOptions h (ObjRef a)
     = (case check_bytes byBytes a (length h) (h @ [Cfg empty_config]) of
          (h2, Some e) \<Rightarrow> (h2, Inl e)
        | (h2, None) \<Rightarrow> (h2, Inr (length h)))"
proof -
  let ?h0 = "h @ [Cfg empty_config]"
  have r0: "read_raw ?h0 a = size_options byBytes s"
    using assms by (simp add: read_raw_append)
  obtain h2 e where cb: "check_bytes byBytes a (length h) ?h0 = (h2, e)"
    by (cases "check_bytes byBytes a (length h) ?h0")
  have "h2 ! a = ?h0 ! a"
    using check_bytes_frame [OF cb] assms(1) by simp
  then have r2: "read_raw h2 a = size_options byBytes s"
    using r0 by (simp add: read_raw_def)
  have flags: "isDefined (raw_lines (size_options byBytes s)) = False"
    "isDefined (raw_bytes (size_options byBytes s)) = byBytes"
    "isDefined (raw_line_bytes (size_options byBytes s)) = (\<not> byBytes)"
    "isDefined (raw_prefix (size_options byBytes s)) = False"
    by (simp_all add: size_options_def no_options_def isDefined_def)
  show ?thesis
    unfolding checkOptions_def alloc_def Let_def
    by (cases e) (simp_all add: r0 r2 cb flags)
qed

text \<open>
  Claim C6, as stated, fails: a string that does not match the pattern is accepted when
  it is a numeric literal. \<open>isNaN("10")\<close> is false, so \<open>{bytes: "10"}\<close> takes the numeric
  branch and yields 10 (the README: an integer and an optional unit).
\<close>

theorem numeric_string_accepted:
  "size_regex_exec ''10'' = None
   \<and> checkOptions [Raw (size_options True ''10'')] (ObjRef 0)
       = ([Raw (size_options True ''10''), Cfg (size_config True 10)], Inr 1)"
proof -
  have digits: "''10'' \<noteq> []" "list_all isDigit ''10''"
    by (simp_all add: isDigit_def)
  have "digitsValue 10 ''10'' = 10"
    by (simp add: digitsValue_def digitValue_def)
  then have "StringToNumber ''10'' = Fin 10"
    using StringToNumber_digits [OF digits] roundToDouble_of_nat [of 10] by simp
  then have "check_bytes True 0 1 [Raw (size_options True ''10''), Cfg empty_config]
      = ([Raw (size_options True ''10''), Cfg (size_config True 10)], None)"
    by (simp add: check_bytes_def size_options_def size_config_def value_defs store_defs
          Let_def)
  moreover have "size_regex_exec ''10'' = None"
    by (simp add: size_regex_exec_def isDigit_def)
  ultimately show ?thesis
    using checkOptions_size_options [of 0 "[Raw (size_options True ''10'')]" True "''10''"]
    by (simp add: read_raw_def)
qed

text \<open>
  Claim C6, amended. For an options object \<open>{bytes: s}\<close> or \<open>{line_bytes: s}\<close>: when
  \<open>s\<close> is a non-empty digit string \<open>d\<close> followed by a unit written all in upper case or all
  in lower case, and the product is a safe integer, validation succeeds and yields
  \<open>d * 1024\<close> for \<open>K\<close>, \<open>d * 1048576\<close> for \<open>M\<close>, \<open>d * 1000\<close> for \<open>KB\<close> and \<open>d * 1000000\<close> for
  \<open>MB\<close>; when \<open>s\<close> is not a numeric literal and does not match the pattern, validation
  fails with \<open>Invalid number of bytes\<close>.
\<close>

theorem size_strings_validated:
  assumes "a < length h" and "read_raw h a = size_options byBytes s"
  shows "(\<forall>d u m. s = d @ u \<and> d \<noteq> [] \<and> list_all isDigit d \<and> (u, m) \<in> set spec_units
             \<and> digitsValue 10 d * m \<le> 9007199254740991
           \<longrightarrow> checkOptions h (ObjRef a)
                 = (h @ [Cfg (size_config byBytes (digitsValue 10 d * m))], Inr (length h)))
       \<and> (StringToNumber s = NaN \<and> size_regex_exec s = None
           \<longrightarrow> checkOptions h (ObjRef a)
                 = (h @ [Cfg empty_config], Inl (Error ''Invalid number of bytes'')))"
proof (intro conjI allI impI)
  fix d u m
  assume hyp: "s = d @ u \<and> d \<noteq> [] \<and> list_all isDigit d \<and> (u, m) \<in> set spec_units
     \<and> digitsValue 10 d * m \<le> 9007199254740991"
  then have s: "s = d @ u" and d: "d \<noteq> []" "list_all isDigit d"
    and u: "(u, m) \<in> set spec_units" and safe: "digitsValue 10 d * m \<le> 9007199254740991"
    by simp_all
  let ?n = "digitsValue 10 d * m"
  let ?h0 = "h @ [Cfg empty_config]"
  have r0: "read_raw ?h0 a = size_options byBytes s"
    using assms by (simp add: read_raw_append)
  have "check_bytes byBytes a (length h) ?h0
     = (assign (length h)
          (\<lambda>c. if byBytes then c\<lparr>bytes := Some ?n\<rparr> else c\<lparr>line_bytes := Some ?n\<rparr>) ?h0,
        None)"
  proof (rule check_bytes_size_ok [OF r0])
    show "StringToNumber s = NaN" unfolding s using d u by (rule StringToNumber_size)
    show "size_regex_exec s = Some (d, u)" unfolding s using d u by (rule size_regex_exec_size)
    show "unit_of u = Some m" using u by (rule spec_units_cases(5))
    show "js_times (StringToNumber d) (Fin (of_nat m)) = Fin (of_nat ?n)"
      using d spec_units_pos [OF u] safe by (rule size_product)
    show "isSafe (Fin (of_nat ?n))" using safe by (rule isSafe_of_nat)
  qed
  then show "checkOptions h (ObjRef a) = (h @ [Cfg (size_config byBytes ?n)], Inr (length h))"
    using checkOptions_size_options [OF assms]
    by (simp add: assign_fresh size_config_def)
next
  assume "StringToNumber s = NaN \<and> size_regex_exec s = None"
  then have nan: "StringToNumber s = NaN" and none: "size_regex_exec s = None"
    by simp_all
  have r0: "read_raw (h @ [Cfg empty_config]) a = size_options byBytes s"
    using assms by (simp add: read_raw_append)
  have "check_bytes byBytes a (length h) (h @ [Cfg empty_config])
      = (h @ [Cfg empty_config], Some (Error ''Invalid number of bytes''))"
    using r0 nan none by (rule check_bytes_size_fail)
  then show "checkOptions h (ObjRef a)
      = (h @ [Cfg empty_config], Inl (Error ''Invalid number of bytes''))"
    using checkOptions_size_options [OF assms] by simp
qed

theorem size_strings_validated_witness:
  "checkOptions [Raw (size_options False ''20kb'')] (ObjRef 0)
     = ([Raw (size_options False ''20kb''), Cfg (size_config False 20000)], Inr 1)
   \<and> checkOptions [Raw (size_options True ''1GB'')] (ObjRef 0)
     = ([Raw (size_options True ''1GB''), Cfg empty_config],
        Inl (Error ''Invalid number of bytes''))"
proof -
  have obj: "(0 :: nat) < length [Raw (size_options b s)]"
    "read_raw [Raw (size_options b s)] 0 = size_options b s" for b s
    by (simp_all add: read_raw_def)
  have "digitsValue 10 ''20'' = 20"
    by (simp add: digitsValue_def digitValue_def)
  then have ok: "''20kb'' = ''20'' @ ''kb'' \<and> ''20'' \<noteq> [] \<and> list_all isDigit ''20''
      \<and> (''kb'', 1000) \<in> set spec_units
      \<and> digitsValue 10 ''20'' * 1000 \<le> 9007199254740991"
    by (simp add: isDigit_def spec_units_def)
  have nan: "StringToNumber ''1GB'' = NaN \<and> size_regex_exec ''1GB'' = None"
    by (simp add: StringToNumber_def trim_def isWhiteSpace_def nonDecimalValue_def
          StrDecimalLiteral_def decimalValue_def exponentPart_def isDigit_def
          size_regex_exec_def to_upper_def Let_def)
  have first: "checkOptions [Raw (size_options False ''20kb'')] (ObjRef 0)
     = ([Raw (size_options False ''20kb'')]
          @ [Cfg (size_config False (digitsValue 10 ''20'' * 1000))],
        Inr (length [Raw (size_options False ''20kb'')]))"
    using size_strings_validated [OF obj [of False "''20kb''"]] ok by blast
  have second: "checkOptions [Raw (size_options True ''1GB'')] (ObjRef 0)
     = ([Raw (size_options True ''1GB'')] @ [Cfg empty_config],
        Inl (Error ''Invalid number of bytes''))"
    using size_strings_validated [OF obj [of True "''1GB''"]] nan by blast
  show ?thesis
    using first second \<open>digitsValue 10 ''20'' = 20\<close> by simp
qed

text \<open>
  A unit in mixed case passes the case-insensitive pattern, but the \<open>switch\<close> on the unit
  knows only the spellings all in upper case or all in lower case: the multiplier is
  \<open>undefined\<close>, the product \<open>NaN\<close>, and validation fails.
\<close>

lemma mixed_case_unit_rejected:
  "size_regex_exec ''1Kb'' = Some (''1'', ''Kb'')
   \<and> checkOptions [Raw (size_options True ''1Kb'')] (ObjRef 0)
       = ([Raw (size_options True ''1Kb''), Cfg empty_config],
          Inl (Error ''Invalid number of bytes''))"
proof -
  have nan: "StringToNumber ''1Kb'' = NaN"
    by (simp add: StringToNumber_def trim_def isWhiteSpace_def nonDecimalValue_def
          StrDecimalLiteral_def decimalValue_def exponentPart_def isDigit_def Let_def)
  have re: "size_regex_exec ''1Kb'' = Some (''1'', ''Kb'')"
    by (simp add: size_regex_exec_def isDigit_def to_upper_def Let_def)
  have "check_bytes True 0 1 [Raw (size_options True ''1Kb''), Cfg empty_config]
      = ([Raw (size_options True ''1Kb''), Cfg empty_config],
         Some (Error ''Invalid number of bytes''))"
    using nan re
    by (simp add: check_bytes_def size_options_def no_options_def read_raw_def the_value_def
          isNaN_def ToNumber_def size_string_def unit_of_def isSafe_def js_le_def Let_def)
  then show ?thesis
    using re checkOptions_size_options [of 0 "[Raw (size_options True ''1Kb'')]" True "''1Kb''"]
    by (simp add: read_raw_def)
qed

end
